theory Spec2Isabelle
  imports Complex_Main
begin

section \<open>Sparse bag-of-words vectors\<close>

text \<open>
  A \<open>BowVector\<close> is a \<open>std::map<WordId, WordValue>\<close>.  It is modelled by the list of
  its entries in iteration order.  The word identifier is only ever compared
  (\<open>==\<close>, \<open><\<close>), so it is any linearly ordered type; a weight is a finite
  \<open>double\<close>, a real number.  The scores are defined in exact arithmetic first: the
  operations on finite values are those of the real numbers, without the rounding,
  underflow and overflow of \<open>double\<close>.  The Chi-Square score is then defined once
  more with every operation rounded to a double.
  An iterator is the list of the entries from its position on: \<open>end()\<close> is \<open>[]\<close>,
  \<open>++it\<close> is \<open>tl it\<close>, \<open>it->first\<close> and \<open>it->second\<close> are \<open>fst (hd it)\<close> and
  \<open>snd (hd it)\<close>.
\<close>

type_synonym 'k BowVector = "('k \<times> real) list"

text \<open>The Sparse Vector invariant: strictly ascending keys, non-negative weights.\<close>

definition bow_inv :: "('k::linorder) BowVector \<Rightarrow> bool" where
  "bow_inv v \<longleftrightarrow> sorted_wrt (<) (map fst v) \<and> list_all (\<lambda>p. 0 \<le> snd p) v"

text \<open>\<open>std::map::lower_bound\<close>: the position of the first entry of the whole map whose
  key is not less than \<open>k\<close>.\<close>

definition lower_bound :: "('k::linorder) BowVector \<Rightarrow> 'k \<Rightarrow> 'k BowVector" where
  "lower_bound v k = dropWhile (\<lambda>p. fst p < k) v"

text \<open>\<open>std::map::find\<close>: the entry with key \<open>k\<close>, or \<open>None\<close> for \<open>end()\<close>.\<close>

definition bow_find :: "'k BowVector \<Rightarrow> 'k \<Rightarrow> ('k \<times> real) option" where
  "bow_find v k = find (\<lambda>p. fst p = k) v"

text \<open>\<open>std::map::insert\<close>: the entry is put at its place in key order; a key that is
  already present keeps its entry.\<close>

fun bow_insert :: "('k::linorder) \<Rightarrow> real \<Rightarrow> 'k BowVector \<Rightarrow> 'k BowVector" where
  "bow_insert k w [] = [(k, w)]"
| "bow_insert k w (p # r) =
     (if k < fst p then (k, w) # p # r
      else if k = fst p then p # r
      else p # bow_insert k w r)"

definition total_weight :: "'k BowVector \<Rightarrow> real" where
  "total_weight v = sum_list (map snd v)"

section \<open>Doubles that leave the finite range\<close>

text \<open>
  The KL variant takes logarithms, and \<open>log(0)\<close> is \<open>-inf\<close> in C, not a real number.
  The values of its accumulator are therefore finite reals, the two infinities or NaN,
  with the IEEE rules for the operations the code uses.
\<close>

datatype dbl = Finite real | PosInf | NegInf | NaN

fun dlog :: "dbl \<Rightarrow> dbl" where
  "dlog (Finite x) = (if 0 < x then Finite (ln x) else if x = 0 then NegInf else NaN)"
| "dlog PosInf = PosInf"
| "dlog NegInf = NaN"
| "dlog NaN = NaN"

fun dadd :: "dbl \<Rightarrow> dbl \<Rightarrow> dbl" where
  "dadd (Finite x) (Finite y) = Finite (x + y)"
| "dadd NaN _ = NaN"
| "dadd _ NaN = NaN"
| "dadd PosInf NegInf = NaN"
| "dadd NegInf PosInf = NaN"
| "dadd PosInf _ = PosInf"
| "dadd _ PosInf = PosInf"
| "dadd NegInf _ = NegInf"
| "dadd _ NegInf = NegInf"

fun dneg :: "dbl \<Rightarrow> dbl" where
  "dneg (Finite x) = Finite (- x)"
| "dneg PosInf = NegInf"
| "dneg NegInf = PosInf"
| "dneg NaN = NaN"

definition dsub :: "dbl \<Rightarrow> dbl \<Rightarrow> dbl" where
  "dsub x y = dadd x (dneg y)"

text \<open>The product of a finite double and a double.\<close>

fun dmul :: "real \<Rightarrow> dbl \<Rightarrow> dbl" where
  "dmul x (Finite y) = Finite (x * y)"
| "dmul x PosInf = (if 0 < x then PosInf else if x < 0 then NegInf else NaN)"
| "dmul x NegInf = (if 0 < x then NegInf else if x < 0 then PosInf else NaN)"
| "dmul x NaN = NaN"

definition DBL_EPSILON :: real where
  "DBL_EPSILON = 1 / 2 ^ 52"

definition LOG_EPS :: real where
  "LOG_EPS = ln DBL_EPSILON"

section \<open>The scoring functions\<close>

subsection \<open>L1\<close>

fun L1_loop :: "('k::linorder) BowVector \<Rightarrow> 'k BowVector \<Rightarrow> real \<Rightarrow> real" where
  "L1_loop ((k1, vi) # r1) ((k2, wi) # r2) score =
     (if k1 = k2 then L1_loop r1 r2 (score + (\<bar>vi - wi\<bar> - \<bar>vi\<bar> - \<bar>wi\<bar>))
      else if k1 < k2 then L1_loop r1 ((k2, wi) # r2) score
      else L1_loop ((k1, vi) # r1) r2 score)"
| "L1_loop [] _ score = score"
| "L1_loop _ [] score = score"

definition L1_score :: "('k::linorder) BowVector \<Rightarrow> 'k BowVector \<Rightarrow> real" where
  "L1_score v1 v2 = - (L1_loop v1 v2 0) / 2"

subsection \<open>L2\<close>

text \<open>
  The body of the \<open>for_each\<close> over \<open>v1\<close>: what one entry \<open>p1\<close> appends to
  \<open>partialScores\<close>.
\<close>

definition L2_visit :: "'k BowVector \<Rightarrow> ('k \<times> real) \<Rightarrow> real list \<Rightarrow> real list" where
  "L2_visit v2 p1 partialScores =
     (case bow_find v2 (fst p1) of
        None \<Rightarrow> partialScores
      | Some it \<Rightarrow>
          if snd p1 \<noteq> 0 \<or> snd it \<noteq> 0
          then partialScores @ [\<bar>snd p1 - snd it\<bar> - \<bar>snd p1\<bar> - \<bar>snd it\<bar>]
          else partialScores)"

text \<open>
  The entries of \<open>v1\<close> visited one after the other, in iteration order: what the
  \<open>for_each\<close> leaves in \<open>partialScores\<close> when no two bodies run at the same time.
\<close>

definition L2_partialScores :: "'k BowVector \<Rightarrow> 'k BowVector \<Rightarrow> real list" where
  "L2_partialScores v1 v2 = fold (L2_visit v2) v1 []"

text \<open>The reduction of \<open>partialScores\<close> and the post-processing.\<close>

definition L2_reduce :: "real list \<Rightarrow> real" where
  "L2_reduce partialScores = - (fold (\<lambda>val score. score + val) partialScores 0) / 2"

definition L2_score :: "'k BowVector \<Rightarrow> 'k BowVector \<Rightarrow> real" where
  "L2_score v1 v2 = L2_reduce (L2_partialScores v1 v2)"

text \<open>
  The \<open>for_each\<close> runs under \<open>std::execution::par\<close>: the bodies for different entries
  of \<open>v1\<close> may run at the same time on different threads, in any order, and they all
  \<open>push_back\<close> on the one vector \<open>partialScores\<close> with no synchronisation.  A
  \<open>push_back\<close> reads the end of the vector, stores the element there and sets the end
  one past the place it stored to (the capacity is reserved beforehand, so the storage
  does not move).  A run interleaves these steps.  Its state is: the entries of \<open>v1\<close>
  not yet visited; the \<open>push_back\<close> calls under way, each with the end position it has
  read and the value it will store; the storage of \<open>partialScores\<close>, as far as it has
  been written; and the end of \<open>partialScores\<close>.  The vector holds the storage up to
  its end.  The runs below are the interleavings of whole reads and whole stores; a
  data race allows more.
\<close>

inductive L2_par_run ::
  "'k BowVector \<Rightarrow> ('k \<times> real) list \<Rightarrow> (nat \<times> real) list \<Rightarrow> real list \<Rightarrow> nat
     \<Rightarrow> real list \<Rightarrow> bool"
  for v2 :: "'k BowVector" where
  finished: "L2_par_run v2 [] [] storage finish (take finish storage)"
| no_push:
    "p1 \<in> set pending \<Longrightarrow> L2_visit v2 p1 [] = [] \<Longrightarrow>
     L2_par_run v2 (remove1 p1 pending) under_way storage finish partialScores \<Longrightarrow>
     L2_par_run v2 pending under_way storage finish partialScores"
| push_back_reads_end:
    "p1 \<in> set pending \<Longrightarrow> L2_visit v2 p1 [] = [val] \<Longrightarrow>
     L2_par_run v2 (remove1 p1 pending) ((finish, val) # under_way) storage finish
       partialScores \<Longrightarrow>
     L2_par_run v2 pending under_way storage finish partialScores"
| push_back_stores:
    "(n, val) \<in> set under_way \<Longrightarrow>
     L2_par_run v2 pending (remove1 (n, val) under_way)
       (take n storage @ [val] @ drop (Suc n) storage) (Suc n) partialScores \<Longrightarrow>
     L2_par_run v2 pending under_way storage finish partialScores"

subsection \<open>Chi-Square\<close>

text \<open>
  The loops that move a cursor with \<open>lower_bound\<close> search the whole map again, so the
  loop takes both maps besides both cursors; \<open>None\<close> is a loop that never ends.
\<close>

partial_function (option) ChiSquare_loop ::
  "('k::linorder) BowVector \<Rightarrow> 'k BowVector \<Rightarrow> 'k BowVector \<Rightarrow> 'k BowVector \<Rightarrow> real
     \<Rightarrow> real option" where
  "ChiSquare_loop v1 v2 v1_it v2_it score =
     (if v1_it \<noteq> [] \<and> v2_it \<noteq> [] then
        let vi = snd (hd v1_it); wi = snd (hd v2_it) in
        if fst (hd v1_it) = fst (hd v2_it) then
          ChiSquare_loop v1 v2 (tl v1_it) (tl v2_it)
            (if vi + wi \<noteq> 0 then score + vi * wi / (vi + wi) else score)
        else if fst (hd v1_it) < fst (hd v2_it) then
          ChiSquare_loop v1 v2 (lower_bound v1 (fst (hd v2_it))) v2_it score
        else
          ChiSquare_loop v1 v2 v1_it (lower_bound v2 (fst (hd v1_it))) score
      else Some score)"

definition ChiSquare_score :: "('k::linorder) BowVector \<Rightarrow> 'k BowVector \<Rightarrow> real option" where
  "ChiSquare_score v1 v2 = map_option (\<lambda>score. 2 * score) (ChiSquare_loop v1 v2 v1 v2 0)"

subsection \<open>KL divergence\<close>

text \<open>The merge loop returns the cursor of \<open>v1\<close> too: the tail loop goes on from it.\<close>

partial_function (option) KL_loop ::
  "('k::linorder) BowVector \<Rightarrow> 'k BowVector \<Rightarrow> 'k BowVector \<Rightarrow> 'k BowVector \<Rightarrow> dbl
     \<Rightarrow> ('k BowVector \<times> dbl) option" where
  "KL_loop v1 v2 v1_it v2_it score =
     (if v1_it \<noteq> [] \<and> v2_it \<noteq> [] then
        let vi = snd (hd v1_it); wi = snd (hd v2_it) in
        if fst (hd v1_it) = fst (hd v2_it) then
          KL_loop v1 v2 (tl v1_it) (tl v2_it)
            (if vi \<noteq> 0 \<and> wi \<noteq> 0
             then dadd score (dmul vi (dlog (Finite (vi / wi)))) else score)
        else if fst (hd v1_it) < fst (hd v2_it) then
          KL_loop v1 v2 (tl v1_it) v2_it
            (dadd score (dmul vi (dsub (dlog (Finite vi)) (Finite LOG_EPS))))
        else
          KL_loop v1 v2 v1_it (lower_bound v2 (fst (hd v1_it))) score
      else Some (v1_it, score))"

fun KL_tail :: "'k BowVector \<Rightarrow> dbl \<Rightarrow> dbl" where
  "KL_tail [] score = score"
| "KL_tail (p # r) score =
     KL_tail r
       (if snd p \<noteq> 0
        then dadd score (dmul (snd p) (dsub (dlog (Finite (snd p))) (Finite LOG_EPS)))
        else score)"

definition KL_score :: "('k::linorder) BowVector \<Rightarrow> 'k BowVector \<Rightarrow> dbl option" where
  "KL_score v1 v2 =
     (case KL_loop v1 v2 v1 v2 (Finite 0) of
        None \<Rightarrow> None
      | Some (v1_it, score) \<Rightarrow> Some (KL_tail v1_it score))"

subsection \<open>Bhattacharyya\<close>

partial_function (option) Bhattacharyya_loop ::
  "('k::linorder) BowVector \<Rightarrow> 'k BowVector \<Rightarrow> 'k BowVector \<Rightarrow> 'k BowVector \<Rightarrow> real
     \<Rightarrow> real option" where
  "Bhattacharyya_loop v1 v2 v1_it v2_it score =
     (if v1_it \<noteq> [] \<and> v2_it \<noteq> [] then
        let vi = snd (hd v1_it); wi = snd (hd v2_it) in
        if fst (hd v1_it) = fst (hd v2_it) then
          Bhattacharyya_loop v1 v2 (tl v1_it) (tl v2_it) (score + sqrt (vi * wi))
        else if fst (hd v1_it) < fst (hd v2_it) then
          Bhattacharyya_loop v1 v2 (lower_bound v1 (fst (hd v2_it))) v2_it score
        else
          Bhattacharyya_loop v1 v2 v1_it (lower_bound v2 (fst (hd v1_it))) score
      else Some score)"

definition Bhattacharyya_score ::
  "('k::linorder) BowVector \<Rightarrow> 'k BowVector \<Rightarrow> real option" where
  "Bhattacharyya_score v1 v2 = Bhattacharyya_loop v1 v2 v1 v2 0"

subsection \<open>Dot product\<close>

partial_function (option) DotProduct_loop ::
  "('k::linorder) BowVector \<Rightarrow> 'k BowVector \<Rightarrow> 'k BowVector \<Rightarrow> 'k BowVector \<Rightarrow> real
     \<Rightarrow> real option" where
  "DotProduct_loop v1 v2 v1_it v2_it score =
     (if v1_it \<noteq> [] \<and> v2_it \<noteq> [] then
        let vi = snd (hd v1_it); wi = snd (hd v2_it) in
        if fst (hd v1_it) = fst (hd v2_it) then
          DotProduct_loop v1 v2 (tl v1_it) (tl v2_it) (score + vi * wi)
        else if fst (hd v1_it) < fst (hd v2_it) then
          DotProduct_loop v1 v2 (lower_bound v1 (fst (hd v2_it))) v2_it score
        else
          DotProduct_loop v1 v2 v1_it (lower_bound v2 (fst (hd v1_it))) score
      else Some score)"

definition DotProduct_score ::
  "('k::linorder) BowVector \<Rightarrow> 'k BowVector \<Rightarrow> real option" where
  "DotProduct_score v1 v2 = DotProduct_loop v1 v2 v1 v2 0"

section \<open>The Chi-Square score in double arithmetic\<close>

text \<open>
  The definitions above compute with real numbers.  A \<open>double\<close> is an IEEE 754 binary64
  number, and every operation on doubles returns its real result rounded to the
  nearest double, a tie going to the double with the even significand.  The finite
  doubles are the numbers \<open>m * 2 ^ e\<close> with an integer \<open>|m| < 2 ^ 53\<close> and
  \<open>-1074 \<le> e \<le> 971\<close>; a result that rounds to \<open>2 ^ 1024\<close> or beyond is an infinity.
  The sign of a zero is not modelled.
\<close>

text \<open>The nearest integer, a tie going to the even one.\<close>

definition rne :: "real \<Rightarrow> int" where
  "rne x =
     (if x - of_int \<lfloor>x\<rfloor> < 1/2 then \<lfloor>x\<rfloor>
      else if 1/2 < x - of_int \<lfloor>x\<rfloor> then \<lfloor>x\<rfloor> + 1
      else if even \<lfloor>x\<rfloor> then \<lfloor>x\<rfloor> else \<lfloor>x\<rfloor> + 1)"

text \<open>
  The gap between the doubles around \<open>x\<close>: \<open>2 ^ (e - 52)\<close> where \<open>2 ^ e \<le> |x| < 2 ^ (e + 1)\<close>,
  and the gap of the subnormal numbers, \<open>2 ^ -1074\<close>, below \<open>2 ^ -1022\<close>.
\<close>

definition dbl_ulp :: "real \<Rightarrow> real" where
  "dbl_ulp x = 2 powi (max \<lfloor>log 2 \<bar>x\<bar>\<rfloor> (- 1022) - 52)"

text \<open>The real number \<open>x\<close> rounded to a double.\<close>

definition fl :: "real \<Rightarrow> dbl" where
  "fl x =
     (if x = 0 then Finite 0
      else let r = dbl_ulp x * of_int (rne (x / dbl_ulp x))
           in if 2 ^ 1024 \<le> \<bar>r\<bar> then (if 0 < x then PosInf else NegInf) else Finite r)"

fun fl_add :: "dbl \<Rightarrow> dbl \<Rightarrow> dbl" where
  "fl_add (Finite x) (Finite y) = fl (x + y)"
| "fl_add x y = dadd x y"


text \<open>
  A division by zero takes the zero as \<open>+0\<close>; the one division of the code is behind a
  test that its divisor is not zero.
\<close>

fun fl_div :: "dbl \<Rightarrow> dbl \<Rightarrow> dbl" where
  "fl_div (Finite x) (Finite y) =
     (if y = 0 then (if x = 0 then NaN else if 0 < x then PosInf else NegInf)
      else fl (x / y))"
| "fl_div NaN _ = NaN"
| "fl_div _ NaN = NaN"
| "fl_div (Finite x) _ = Finite 0"
| "fl_div PosInf (Finite y) = (if 0 \<le> y then PosInf else NegInf)"
| "fl_div NegInf (Finite y) = (if 0 \<le> y then NegInf else PosInf)"
| "fl_div _ _ = NaN"

text \<open>
  \<open>ChiSquareScoring::score\<close> once more, each operation on doubles rounded: the weights
  are finite doubles, the accumulator is a double.
\<close>

partial_function (option) ChiSquare_loop_double ::
  "('k::linorder) BowVector \<Rightarrow> 'k BowVector \<Rightarrow> 'k BowVector \<Rightarrow> 'k BowVector \<Rightarrow> dbl
     \<Rightarrow> dbl option" where
  "ChiSquare_loop_double v1 v2 v1_it v2_it score =
     (if v1_it \<noteq> [] \<and> v2_it \<noteq> [] then
        let vi = snd (hd v1_it); wi = snd (hd v2_it) in
        if fst (hd v1_it) = fst (hd v2_it) then
          ChiSquare_loop_double v1 v2 (tl v1_it) (tl v2_it)
            (if fl (vi + wi) \<noteq> Finite 0
             then fl_add score (fl_div (fl (vi * wi)) (fl (vi + wi))) else score)
        else if fst (hd v1_it) < fst (hd v2_it) then
          ChiSquare_loop_double v1 v2 (lower_bound v1 (fst (hd v2_it))) v2_it score
        else
          ChiSquare_loop_double v1 v2 v1_it (lower_bound v2 (fst (hd v1_it))) score
      else Some score)"


section \<open>The matched entries of two vectors\<close>

text \<open>
  The pairs of weights at the keys the two vectors share, found by a merge that moves
  one entry at a time.  It is the yardstick the loops are compared with.
\<close>

fun matched :: "('k::linorder) BowVector \<Rightarrow> 'k BowVector \<Rightarrow> (real \<times> real) list" where
  "matched ((k1, vi) # r1) ((k2, wi) # r2) =
     (if k1 = k2 then (vi, wi) # matched r1 r2
      else if k1 < k2 then matched r1 ((k2, wi) # r2)
      else matched ((k1, vi) # r1) r2)"
| "matched [] _ = []"
| "matched _ [] = []"

text \<open>What a matched pair of weights adds to the sum, variant by variant.\<close>

definition l1_term :: "real \<times> real \<Rightarrow> real" where
  "l1_term p = \<bar>fst p - snd p\<bar> - \<bar>fst p\<bar> - \<bar>snd p\<bar>"

definition chi_term :: "real \<times> real \<Rightarrow> real" where
  "chi_term p = (if fst p + snd p \<noteq> 0 then fst p * snd p / (fst p + snd p) else 0)"

definition bhat_term :: "real \<times> real \<Rightarrow> real" where
  "bhat_term p = sqrt (fst p * snd p)"

definition dot_term :: "real \<times> real \<Rightarrow> real" where
  "dot_term p = fst p * snd p"

text \<open>
  The same sum taken entry by entry of \<open>a\<close>, with the weight of \<open>b\<close> looked up by key.
\<close>

definition via_lookup :: "(real \<times> real \<Rightarrow> real) \<Rightarrow> 'k BowVector \<Rightarrow> 'k BowVector \<Rightarrow> real" where
  "via_lookup f b a =
     sum_list (map (\<lambda>p. case map_of b (fst p) of None \<Rightarrow> 0 | Some w \<Rightarrow> f (snd p, w)) a)"

text \<open>
  The KL merge loop with both cursors moved one entry at a time: the yardstick for
  the loop that skips with \<open>lower_bound\<close>.
\<close>

fun KL_merge ::
  "('k::linorder) BowVector \<Rightarrow> 'k BowVector \<Rightarrow> dbl \<Rightarrow> 'k BowVector \<times> dbl" where
  "KL_merge ((k1, vi) # r1) ((k2, wi) # r2) s =
     (if k1 = k2 then
        KL_merge r1 r2
          (if vi \<noteq> 0 \<and> wi \<noteq> 0 then dadd s (dmul vi (dlog (Finite (vi / wi)))) else s)
      else if k1 < k2 then
        KL_merge r1 ((k2, wi) # r2)
          (dadd s (dmul vi (dsub (dlog (Finite vi)) (Finite LOG_EPS))))
      else KL_merge ((k1, vi) # r1) r2 s)"
| "KL_merge [] it2 s = ([], s)"
| "KL_merge it1 [] s = (it1, s)"

text \<open>
  What one entry of \<open>v1\<close> adds to the KL score, read off the map \<open>b\<close>: the penalty when
  its key is absent from \<open>b\<close>, the matched term when both weights are non-zero.
\<close>

definition kl_entry :: "'k BowVector \<Rightarrow> 'k \<times> real \<Rightarrow> real" where
  "kl_entry b p =
     (case map_of b (fst p) of
        None \<Rightarrow> snd p * (ln (snd p) - LOG_EPS)
      | Some w \<Rightarrow> if snd p \<noteq> 0 \<and> w \<noteq> 0 then snd p * ln (snd p / w) else 0)"

text \<open>
  The entries of \<open>v1\<close> that make the KL score NaN: a zero weight at a key that \<open>b\<close> does
  not have, below some key of \<open>b\<close>.  Such an entry goes through the branch that takes
  the logarithm of the weight without a test.
\<close>

definition kl_nan :: "('k::linorder) BowVector \<Rightarrow> 'k \<times> real \<Rightarrow> bool" where
  "kl_nan b p \<longleftrightarrow> snd p = 0 \<and> fst p \<notin> fst ` set b \<and> (\<exists>q \<in> set b. fst p < fst q)"

section \<open>Auxiliary facts\<close>

subsection \<open>Cursors\<close>

lemma lower_bound_cursor:
  assumes "sorted_wrt (<) (map fst v)" and "v = pre @ (k1, x) # r" and "k1 < k"
  shows "lower_bound v k = dropWhile (\<lambda>p. fst p < k) r"
proof -
  have "\<forall>p \<in> set pre. fst p < k"
    using assms by (auto simp: sorted_wrt_append)
  then show ?thesis
    using assms by (simp add: lower_bound_def dropWhile_append)
qed

lemma cursor_dropWhile: "\<exists>pre. v = pre @ it \<Longrightarrow> \<exists>pre. v = pre @ dropWhile P it"
  by (metis append.assoc takeWhile_dropWhile_id)

lemma cursor_tl: "\<exists>pre. v = pre @ p # r \<Longrightarrow> \<exists>pre. v = pre @ r"
  by (metis append.assoc append_Cons append_Nil)

subsection \<open>Matched entries\<close>

lemma matched_Nil2 [simp]: "matched a [] = []"
  by (cases a) auto

lemma matched_skip_left:
  "matched (dropWhile (\<lambda>p. fst p < k2) it1) ((k2, wi) # r2) = matched it1 ((k2, wi) # r2)"
  by (induction it1) auto

lemma matched_skip_right:
  "matched ((k1, vi) # r1) (dropWhile (\<lambda>p. fst p < k1) it2) = matched ((k1, vi) # r1) it2"
  by (induction it2) auto

lemma matched_swap: "matched b a = map prod.swap (matched a b)"
  by (induction a b rule: matched.induct) auto

lemma matched_self: "matched a a = map (\<lambda>p. (snd p, snd p)) a"
  by (induction a) auto

text \<open>A loop that skips with \<open>lower_bound\<close> adds up a term for every matched pair.\<close>

lemma skip_loop_matched:
  fixes loop :: "('k::linorder) BowVector \<Rightarrow> 'k BowVector \<Rightarrow> real \<Rightarrow> real option"
  assumes nil1: "\<And>it2 s. loop [] it2 s = Some s"
    and nil2: "\<And>it1 s. loop it1 [] s = Some s"
    and cons: "\<And>k1 vi r1 k2 wi r2 s. loop ((k1, vi) # r1) ((k2, wi) # r2) s =
      (if k1 = k2 then loop r1 r2 (s + f (vi, wi))
       else if k1 < k2 then loop (lower_bound v1 k2) ((k2, wi) # r2) s
       else loop ((k1, vi) # r1) (lower_bound v2 k1) s)"
    and s1: "sorted_wrt (<) (map fst v1)" and s2: "sorted_wrt (<) (map fst v2)"
  shows "\<exists>pre. v1 = pre @ it1 \<Longrightarrow> \<exists>pre. v2 = pre @ it2 \<Longrightarrow>
    loop it1 it2 s = Some (s + sum_list (map f (matched it1 it2)))"
proof (induction "length it1 + length it2" arbitrary: it1 it2 s rule: less_induct)
  case less
  show ?case
  proof (cases it1)
    case Nil
    then show ?thesis by (simp add: nil1)
  next
    case c1: (Cons p1 r1)
    obtain k1 vi where p1: "p1 = (k1, vi)" by (cases p1)
    show ?thesis
    proof (cases it2)
      case Nil
      then show ?thesis by (simp add: nil2)
    next
      case c2: (Cons p2 r2)
      obtain k2 wi where p2: "p2 = (k2, wi)" by (cases p2)
      consider (eq) "k1 = k2" | (lt) "k1 < k2" | (gt) "k2 < k1"
        by (meson less_linear)
      then show ?thesis
      proof cases
        case eq
        have "loop r1 r2 t = Some (t + sum_list (map f (matched r1 r2)))" for t
          using less.hyps [of r1 r2 t] less.prems cursor_tl [of v1 p1 r1] cursor_tl [of v2 p2 r2]
          by (simp add: c1 c2)
        then show ?thesis
          using eq by (simp add: c1 c2 p1 p2 cons)
      next
        case lt
        obtain pre where pre: "v1 = pre @ (k1, vi) # r1"
          using less.prems(1) c1 p1 by auto
        let ?it = "dropWhile (\<lambda>p. fst p < k2) r1"
        have lb: "lower_bound v1 k2 = ?it"
          using lower_bound_cursor [OF s1 pre lt] .
        have "\<exists>pre. v1 = pre @ r1"
          using less.prems(1) by (auto simp: c1 intro: cursor_tl)
        then have "\<exists>pre. v1 = pre @ ?it"
          by (rule cursor_dropWhile)
        moreover have "length ?it + length it2 < length it1 + length it2"
          using length_dropWhile_le [of "\<lambda>p. fst p < k2" r1] by (simp add: c1)
        ultimately have "loop ?it it2 s = Some (s + sum_list (map f (matched ?it it2)))"
          using less.hyps [of ?it it2 s] less.prems(2) by blast
        moreover have "matched ?it it2 = matched it1 it2"
          using lt matched_skip_left [of k2 r1 wi r2] by (auto simp: c1 c2 p1 p2)
        ultimately show ?thesis
          using lt lb by (auto simp: c1 c2 p1 p2 cons)
      next
        case gt
        obtain pre where pre: "v2 = pre @ (k2, wi) # r2"
          using less.prems(2) c2 p2 by auto
        let ?it = "dropWhile (\<lambda>p. fst p < k1) r2"
        have lb: "lower_bound v2 k1 = ?it"
          using lower_bound_cursor [OF s2 pre gt] .
        have "\<exists>pre. v2 = pre @ r2"
          using less.prems(2) by (auto simp: c2 intro: cursor_tl)
        then have "\<exists>pre. v2 = pre @ ?it"
          by (rule cursor_dropWhile)
        moreover have "length it1 + length ?it < length it1 + length it2"
          using length_dropWhile_le [of "\<lambda>p. fst p < k1" r2] by (simp add: c2)
        ultimately have "loop it1 ?it s = Some (s + sum_list (map f (matched it1 ?it)))"
          using less.hyps [of it1 ?it s] less.prems(1) by blast
        moreover have "matched it1 ?it = matched it1 it2"
          using gt matched_skip_right [of k1 vi r1 r2] by (auto simp: c1 c2 p1 p2)
        ultimately show ?thesis
          using gt lb by (auto simp: c1 c2 p1 p2 cons)
      qed
    qed
  qed
qed

subsection \<open>The loops, unfolded once\<close>

lemma ChiSquare_loop_Nil1: "ChiSquare_loop v1 v2 [] it2 s = Some s"
  by (subst ChiSquare_loop.simps) simp

lemma ChiSquare_loop_Nil2: "ChiSquare_loop v1 v2 it1 [] s = Some s"
  by (subst ChiSquare_loop.simps) simp

lemma ChiSquare_loop_Cons:
  "ChiSquare_loop v1 v2 ((k1, vi) # r1) ((k2, wi) # r2) s =
     (if k1 = k2 then
        ChiSquare_loop v1 v2 r1 r2 (s + chi_term (vi, wi))
      else if k1 < k2 then ChiSquare_loop v1 v2 (lower_bound v1 k2) ((k2, wi) # r2) s
      else ChiSquare_loop v1 v2 ((k1, vi) # r1) (lower_bound v2 k1) s)"
  by (subst ChiSquare_loop.simps) (simp add: Let_def chi_term_def)

lemma Bhattacharyya_loop_Nil1: "Bhattacharyya_loop v1 v2 [] it2 s = Some s"
  by (subst Bhattacharyya_loop.simps) simp

lemma Bhattacharyya_loop_Nil2: "Bhattacharyya_loop v1 v2 it1 [] s = Some s"
  by (subst Bhattacharyya_loop.simps) simp

lemma Bhattacharyya_loop_Cons:
  "Bhattacharyya_loop v1 v2 ((k1, vi) # r1) ((k2, wi) # r2) s =
     (if k1 = k2 then
        Bhattacharyya_loop v1 v2 r1 r2 (s + bhat_term (vi, wi))
      else if k1 < k2 then Bhattacharyya_loop v1 v2 (lower_bound v1 k2) ((k2, wi) # r2) s
      else Bhattacharyya_loop v1 v2 ((k1, vi) # r1) (lower_bound v2 k1) s)"
  by (subst Bhattacharyya_loop.simps) (simp add: Let_def bhat_term_def)

lemma DotProduct_loop_Nil1: "DotProduct_loop v1 v2 [] it2 s = Some s"
  by (subst DotProduct_loop.simps) simp

lemma DotProduct_loop_Nil2: "DotProduct_loop v1 v2 it1 [] s = Some s"
  by (subst DotProduct_loop.simps) simp

lemma DotProduct_loop_Cons:
  "DotProduct_loop v1 v2 ((k1, vi) # r1) ((k2, wi) # r2) s =
     (if k1 = k2 then
        DotProduct_loop v1 v2 r1 r2 (s + dot_term (vi, wi))
      else if k1 < k2 then DotProduct_loop v1 v2 (lower_bound v1 k2) ((k2, wi) # r2) s
      else DotProduct_loop v1 v2 ((k1, vi) # r1) (lower_bound v2 k1) s)"
  by (subst DotProduct_loop.simps) (simp add: Let_def dot_term_def)

lemma ChiSquare_score_matched:
  assumes "sorted_wrt (<) (map fst v1)" and "sorted_wrt (<) (map fst v2)"
  shows "ChiSquare_score v1 v2 = Some (2 * sum_list (map chi_term (matched v1 v2)))"
  using skip_loop_matched [of "ChiSquare_loop v1 v2" chi_term v1 v2 v1 v2 0,
      OF ChiSquare_loop_Nil1 ChiSquare_loop_Nil2 ChiSquare_loop_Cons assms]
  by (simp add: ChiSquare_score_def)

lemma Bhattacharyya_score_matched:
  assumes "sorted_wrt (<) (map fst v1)" and "sorted_wrt (<) (map fst v2)"
  shows "Bhattacharyya_score v1 v2 = Some (sum_list (map bhat_term (matched v1 v2)))"
  using skip_loop_matched [of "Bhattacharyya_loop v1 v2" bhat_term v1 v2 v1 v2 0,
      OF Bhattacharyya_loop_Nil1 Bhattacharyya_loop_Nil2 Bhattacharyya_loop_Cons assms]
  by (simp add: Bhattacharyya_score_def)

lemma DotProduct_score_matched:
  assumes "sorted_wrt (<) (map fst v1)" and "sorted_wrt (<) (map fst v2)"
  shows "DotProduct_score v1 v2 = Some (sum_list (map dot_term (matched v1 v2)))"
  using skip_loop_matched [of "DotProduct_loop v1 v2" dot_term v1 v2 v1 v2 0,
      OF DotProduct_loop_Nil1 DotProduct_loop_Nil2 DotProduct_loop_Cons assms]
  by (simp add: DotProduct_score_def)

lemma L1_loop_Nil2 [simp]: "L1_loop a [] s = s"
  by (cases a) auto

lemma L1_loop_matched: "L1_loop a b s = s + sum_list (map l1_term (matched a b))"
  by (induction a b s rule: L1_loop.induct) (auto simp: l1_term_def)

lemma L1_score_matched: "L1_score a b = - sum_list (map l1_term (matched a b)) / 2"
  by (simp add: L1_score_def L1_loop_matched)

lemma via_lookup_Nil [simp]: "via_lookup f b [] = 0"
  by (simp add: via_lookup_def)

lemma via_lookup_Cons:
  "via_lookup f b (p # r) =
     (case map_of b (fst p) of None \<Rightarrow> 0 | Some w \<Rightarrow> f (snd p, w)) + via_lookup f b r"
  by (simp add: via_lookup_def)

lemma via_lookup_drop_key:
  "\<forall>p \<in> set a. fst p \<noteq> k \<Longrightarrow> via_lookup f ((k, w) # b) a = via_lookup f b a"
  by (induction a) (auto simp: via_lookup_def)

lemma map_of_below:
  fixes k :: "'k::linorder"
  shows "\<forall>q \<in> set b. k < fst q \<Longrightarrow> map_of b k = None"
  by (induction b) auto

lemma matched_via_lookup:
  "sorted_wrt (<) (map fst a) \<Longrightarrow> sorted_wrt (<) (map fst b) \<Longrightarrow>
   sum_list (map f (matched a b)) = via_lookup f b a"
proof (induction a b rule: matched.induct)
  case (1 k1 vi r1 k2 wi r2)
  consider (eq) "k1 = k2" | (lt) "k1 < k2" | (gt) "k2 < k1"
    by (meson less_linear)
  then show ?case
  proof cases
    case eq
    have "\<forall>p \<in> set r1. fst p \<noteq> k2"
      using "1.prems"(1) eq by auto
    then have "via_lookup f ((k2, wi) # r2) r1 = via_lookup f r2 r1"
      by (rule via_lookup_drop_key)
    then show ?thesis
      using eq "1.IH"(1) "1.prems" by (simp add: via_lookup_Cons)
  next
    case lt
    have "map_of ((k2, wi) # r2) k1 = None"
      using lt "1.prems"(2) by (intro map_of_below) auto
    then show ?thesis
      using lt "1.IH"(2) "1.prems" by (auto simp: via_lookup_Cons)
  next
    case gt
    have "\<forall>p \<in> set ((k1, vi) # r1). fst p \<noteq> k2"
      using "1.prems"(1) gt by auto
    then have "via_lookup f ((k2, wi) # r2) ((k1, vi) # r1) = via_lookup f r2 ((k1, vi) # r1)"
      by (rule via_lookup_drop_key)
    then show ?thesis
      using gt "1.IH"(3) "1.prems" by auto
  qed
qed (simp_all add: via_lookup_def)

subsection \<open>Insertion\<close>

lemma set_bow_insert: "fst ` set (bow_insert k w a) = insert k (fst ` set a)"
  by (induction a) auto

lemma sorted_bow_insert:
  "sorted_wrt (<) (map fst a) \<Longrightarrow> sorted_wrt (<) (map fst (bow_insert k w a))"
proof (induction a)
  case Nil
  then show ?case by simp
next
  case (Cons p r)
  have "\<forall>x \<in> fst ` set (bow_insert k w r). fst p < x" if "fst p < k"
    using Cons.prems that by (auto simp: set_bow_insert)
  then show ?case
    using Cons by auto
qed

lemma via_lookup_insert_zero:
  assumes "k \<notin> fst ` set a" and "\<And>w. f (0, w) = 0"
  shows "via_lookup f b (bow_insert k 0 a) = via_lookup f b a"
  using assms(1)
proof (induction a)
  case Nil
  then show ?case by (simp add: via_lookup_def assms(2) split: option.splits)
next
  case (Cons p r)
  then show ?case
    by (auto simp: via_lookup_Cons assms(2) split: option.splits)
qed

lemma matched_insert_zero_left:
  fixes f :: "real \<times> real \<Rightarrow> real"
  assumes "sorted_wrt (<) (map fst a)" and "sorted_wrt (<) (map fst b)"
    and "k \<notin> fst ` set a" and "\<And>w. f (0, w) = 0"
  shows "sum_list (map f (matched (bow_insert k 0 a) b)) = sum_list (map f (matched a b))"
proof -
  have "sorted_wrt (<) (map fst (bow_insert k 0 a))"
    using assms(1) by (rule sorted_bow_insert)
  then have "sum_list (map f (matched (bow_insert k 0 a) b)) = via_lookup f b (bow_insert k 0 a)"
    using assms(2) by (rule matched_via_lookup)
  also have "\<dots> = via_lookup f b a"
    using assms(3,4) by (rule via_lookup_insert_zero)
  also have "\<dots> = sum_list (map f (matched a b))"
    using assms(1,2) by (rule matched_via_lookup [symmetric])
  finally show ?thesis .
qed

lemma matched_insert_zero_right:
  fixes f :: "real \<times> real \<Rightarrow> real"
  assumes "sorted_wrt (<) (map fst a)" and "sorted_wrt (<) (map fst b)"
    and "k \<notin> fst ` set b" and "\<And>v. f (v, 0) = 0"
  shows "sum_list (map f (matched a (bow_insert k 0 b))) = sum_list (map f (matched a b))"
proof -
  have "sum_list (map f (matched a c)) = sum_list (map (f \<circ> prod.swap) (matched c a))" for c
    by (subst matched_swap [of a c]) (simp add: comp_def)
  then show ?thesis
    using matched_insert_zero_left [of b a k "f \<circ> prod.swap"] assms by simp 
qed

subsection \<open>L2\<close>

lemma bow_find_map_of:
  "bow_find b k = (case map_of b k of None \<Rightarrow> None | Some w \<Rightarrow> Some (k, w))"
  by (induction b) (auto simp: bow_find_def)

lemma fold_add: "fold (\<lambda>val score. score + val) ps (s::real) = s + sum_list ps"
  by (induction ps arbitrary: s) auto

lemma sum_list_L2_visit:
  "sum_list (L2_visit b p acc) =
     sum_list acc + (case map_of b (fst p) of None \<Rightarrow> 0 | Some w \<Rightarrow> l1_term (snd p, w))"
  by (auto simp: L2_visit_def bow_find_map_of l1_term_def split: option.splits)

lemma sum_list_L2_fold:
  "sum_list (fold (L2_visit b) a acc) = sum_list acc + via_lookup l1_term b a"
  by (induction a arbitrary: acc) (simp_all add: via_lookup_Cons sum_list_L2_visit)

lemma L2_reduce_sum: "L2_reduce ps = - sum_list ps / 2"
  by (simp add: L2_reduce_def fold_add)

lemma L2_score_via_lookup: "L2_score a b = - via_lookup l1_term b a / 2"
  by (simp add: L2_score_def L2_reduce_sum L2_partialScores_def sum_list_L2_fold)

text \<open>On the serial run, and in exact arithmetic, the L2 score is the L1 score.\<close>

lemma L2_score_eq_L1_score:
  "sorted_wrt (<) (map fst a) \<Longrightarrow> sorted_wrt (<) (map fst b) \<Longrightarrow> L2_score a b = L1_score a b"
  by (simp add: L2_score_via_lookup L1_score_matched matched_via_lookup)

subsection \<open>Bounds\<close>

lemma total_weight_nonneg: "list_all (\<lambda>p. 0 \<le> snd p) a \<Longrightarrow> 0 \<le> total_weight a"
  by (induction a) (auto simp: total_weight_def)

lemma l1_term_min: "0 \<le> v \<Longrightarrow> 0 \<le> w \<Longrightarrow> l1_term (v, w) = - 2 * min v w"
  by (auto simp: l1_term_def min_def)

lemma matched_nonneg:
  "list_all (\<lambda>p. 0 \<le> snd p) a \<Longrightarrow> list_all (\<lambda>p. 0 \<le> snd p) b \<Longrightarrow>
   list_all (\<lambda>p. 0 \<le> fst p \<and> 0 \<le> snd p) (matched a b)"
  by (induction a b rule: matched.induct) auto

lemma l1_sum_min:
  "list_all (\<lambda>p. 0 \<le> fst p \<and> 0 \<le> snd p) ps \<Longrightarrow>
   - sum_list (map l1_term ps) / 2 = sum_list (map (\<lambda>p. min (fst p) (snd p)) ps)"
  by (induction ps) (auto simp: l1_term_min field_simps)

lemma sum_min_nonneg:
  fixes ps :: "(real \<times> real) list"
  shows "list_all (\<lambda>p. 0 \<le> fst p \<and> 0 \<le> snd p) ps \<Longrightarrow>
   0 \<le> sum_list (map (\<lambda>p. min (fst p) (snd p)) ps)"
  by (induction ps) auto

lemma matched_min_le_left:
  "list_all (\<lambda>p. 0 \<le> snd p) a \<Longrightarrow> list_all (\<lambda>p. 0 \<le> snd p) b \<Longrightarrow>
   sum_list (map (\<lambda>p. min (fst p) (snd p)) (matched a b)) \<le> total_weight a"
proof (induction a b rule: matched.induct)
  case (1 k1 vi r1 k2 wi r2)
  then show ?case by (auto simp: total_weight_def)
qed (simp_all add: total_weight_nonneg)

lemma matched_min_le_right:
  "list_all (\<lambda>p. 0 \<le> snd p) a \<Longrightarrow> list_all (\<lambda>p. 0 \<le> snd p) b \<Longrightarrow>
   sum_list (map (\<lambda>p. min (fst p) (snd p)) (matched a b)) \<le> total_weight b"
proof (induction a b rule: matched.induct)
  case (1 k1 vi r1 k2 wi r2)
  then show ?case by (auto simp: total_weight_def)
qed (simp_all add: total_weight_nonneg)

lemma L1_score_min:
  "list_all (\<lambda>p. 0 \<le> snd p) a \<Longrightarrow> list_all (\<lambda>p. 0 \<le> snd p) b \<Longrightarrow>
   L1_score a b = sum_list (map (\<lambda>p. min (fst p) (snd p)) (matched a b))"
  using l1_sum_min [OF matched_nonneg, of a b] by (simp add: L1_score_matched)

subsection \<open>Bhattacharyya\<close>





subsection \<open>KL divergence\<close>

lemma KL_loop_Nil1: "KL_loop v1 v2 [] it2 s = Some ([], s)"
  by (subst KL_loop.simps) simp

lemma KL_loop_Nil2: "KL_loop v1 v2 it1 [] s = Some (it1, s)"
  by (subst KL_loop.simps) simp

lemma KL_loop_Cons:
  "KL_loop v1 v2 ((k1, vi) # r1) ((k2, wi) # r2) s =
     (if k1 = k2 then
        KL_loop v1 v2 r1 r2
          (if vi \<noteq> 0 \<and> wi \<noteq> 0 then dadd s (dmul vi (dlog (Finite (vi / wi)))) else s)
      else if k1 < k2 then
        KL_loop v1 v2 r1 ((k2, wi) # r2)
          (dadd s (dmul vi (dsub (dlog (Finite vi)) (Finite LOG_EPS))))
      else KL_loop v1 v2 ((k1, vi) # r1) (lower_bound v2 k1) s)"
  by (subst KL_loop.simps) (simp add: Let_def)

lemma KL_merge_Nil2 [simp]: "KL_merge it1 [] s = (it1, s)"
  by (cases it1) auto

lemma KL_merge_skip_right:
  "KL_merge ((k1, vi) # r1) (dropWhile (\<lambda>p. fst p < k1) it2) s = KL_merge ((k1, vi) # r1) it2 s"
  by (induction it2) auto

lemma KL_loop_merge:
  assumes s2: "sorted_wrt (<) (map fst v2)"
  shows "\<exists>pre. v2 = pre @ it2 \<Longrightarrow> KL_loop v1 v2 it1 it2 s = Some (KL_merge it1 it2 s)"
proof (induction "length it1 + length it2" arbitrary: it1 it2 s rule: less_induct)
  case less
  show ?case
  proof (cases it1)
    case Nil
    then show ?thesis by (simp add: KL_loop_Nil1)
  next
    case c1: (Cons p1 r1)
    obtain k1 vi where p1: "p1 = (k1, vi)" by (cases p1)
    show ?thesis
    proof (cases it2)
      case Nil
      then show ?thesis by (simp add: KL_loop_Nil2)
    next
      case c2: (Cons p2 r2)
      obtain k2 wi where p2: "p2 = (k2, wi)" by (cases p2)
      have tl2: "\<exists>pre. v2 = pre @ r2"
        using less.prems by (auto simp: c2 intro: cursor_tl)
      consider (eq) "k1 = k2" | (lt) "k1 < k2" | (gt) "k2 < k1"
        by (meson less_linear)
      then show ?thesis
      proof cases
        case eq
        have "KL_loop v1 v2 r1 r2 t = Some (KL_merge r1 r2 t)" for t
          using less.hyps [of r1 r2 t] tl2 by (simp add: c1 c2)
        then show ?thesis
          using eq by (simp add: c1 c2 p1 p2 KL_loop_Cons)
      next
        case lt
        have "KL_loop v1 v2 r1 it2 t = Some (KL_merge r1 it2 t)" for t
          using less.hyps [of r1 it2 t] less.prems by (simp add: c1)
        then show ?thesis
          using lt by (auto simp: c1 c2 p1 p2 KL_loop_Cons)
      next
        case gt
        obtain pre where pre: "v2 = pre @ (k2, wi) # r2"
          using less.prems c2 p2 by auto
        let ?it = "dropWhile (\<lambda>p. fst p < k1) r2"
        have lb: "lower_bound v2 k1 = ?it"
          using lower_bound_cursor [OF s2 pre gt] .
        have "\<exists>pre. v2 = pre @ ?it"
          using tl2 by (rule cursor_dropWhile)
        moreover have "length it1 + length ?it < length it1 + length it2"
          using length_dropWhile_le [of "\<lambda>p. fst p < k1" r2] by (simp add: c2)
        ultimately have "KL_loop v1 v2 it1 ?it s = Some (KL_merge it1 ?it s)"
          using less.hyps [of it1 ?it s] by blast
        moreover have "KL_merge it1 ?it s = KL_merge it1 it2 s"
          using gt KL_merge_skip_right [of k1 vi r1 r2 s] by (auto simp: c1 c2 p1 p2)
        ultimately show ?thesis
          using gt lb by (auto simp: c1 c2 p1 p2 KL_loop_Cons)
      qed
    qed
  qed
qed

lemma KL_score_merge:
  "sorted_wrt (<) (map fst v2) \<Longrightarrow>
   KL_score v1 v2 = Some (KL_tail (fst (KL_merge v1 v2 (Finite 0))) (snd (KL_merge v1 v2 (Finite 0))))"
  using KL_loop_merge [of v2 v2 v1 v1 "Finite 0"]
  by (simp add: KL_score_def split: prod.splits)

lemma KL_tail_finite:
  "list_all (\<lambda>p. 0 \<le> snd p) r \<Longrightarrow>
   KL_tail r (Finite s) =
     Finite (s + sum_list (map (\<lambda>p. snd p * (ln (snd p) - LOG_EPS)) (filter (\<lambda>p. snd p \<noteq> 0) r)))"
  by (induction r arbitrary: s) (auto simp: dsub_def)

lemma KL_loop_self: "KL_loop v1 v2 it it (Finite 0) = Some ([], Finite 0)"
  by (induction it) (auto simp: KL_loop_Nil1 KL_loop_Cons)

subsection \<open>Concrete runs\<close>

lemma bhat_term_same: "0 \<le> v \<Longrightarrow> bhat_term (v, v) = v"
  by (simp add: bhat_term_def)

lemmas loop_simps =
  ChiSquare_loop_Nil1 ChiSquare_loop_Nil2 ChiSquare_loop_Cons
  Bhattacharyya_loop_Nil1 Bhattacharyya_loop_Nil2 Bhattacharyya_loop_Cons
  DotProduct_loop_Nil1 DotProduct_loop_Nil2 DotProduct_loop_Cons
  KL_loop_Nil1 KL_loop_Nil2 KL_loop_Cons

lemma bow_inv_sorted: "bow_inv v \<Longrightarrow> sorted_wrt (<) (map fst v)"
  by (simp add: bow_inv_def)

lemma bow_inv_nonneg: "bow_inv v \<Longrightarrow> list_all (\<lambda>p. 0 \<le> snd p) v"
  by (simp add: bow_inv_def)

subsection \<open>The KL score entry by entry\<close>

lemma kl_entry_drop_key: "fst p \<noteq> k \<Longrightarrow> kl_entry ((k, w) # b) p = kl_entry b p"
  by (simp add: kl_entry_def)

lemma kl_entry_sum_drop_key:
  "\<forall>p \<in> set a. fst p \<noteq> k \<Longrightarrow>
   sum_list (map (kl_entry ((k, w) # b)) a) = sum_list (map (kl_entry b) a)"
  by (induction a) (auto simp: kl_entry_drop_key)

subsection \<open>More on insertion\<close>

lemma set_bow_insert_absent:
  "k \<notin> fst ` set a \<Longrightarrow> set (bow_insert k w a) = insert (k, w) (set a)"
  by (induction a) auto

lemma sum_list_bow_insert:
  fixes g :: "'k::linorder \<times> real \<Rightarrow> real"
  shows "k \<notin> fst ` set a \<Longrightarrow>
    sum_list (map g (bow_insert k w a)) = g (k, w) + sum_list (map g a)"
  by (induction a) auto

lemma map_of_bow_insert_other: "k' \<noteq> k \<Longrightarrow> map_of (bow_insert k w b) k' = map_of b k'"
  by (induction b) auto

lemma map_of_bow_insert_same:
  "k \<notin> fst ` set b \<Longrightarrow> map_of (bow_insert k w b) k = Some w"
  by (induction b) auto

lemma bow_inv_insert: "bow_inv b \<Longrightarrow> 0 \<le> w \<Longrightarrow> bow_inv (bow_insert k w b)"
proof -
  have "list_all (\<lambda>p. 0 \<le> snd p) b \<Longrightarrow> 0 \<le> w \<Longrightarrow>
      list_all (\<lambda>p. 0 \<le> snd p) (bow_insert k w b)"
    by (induction b) auto
  then show "bow_inv b \<Longrightarrow> 0 \<le> w \<Longrightarrow> bow_inv (bow_insert k w b)"
    by (simp add: bow_inv_def sorted_bow_insert)
qed

lemma terms_zero_left:
  "l1_term (0, w) = 0" "chi_term (0, w) = 0" "bhat_term (0, w) = 0" "dot_term (0, w) = 0"
  by (simp_all add: l1_term_def chi_term_def bhat_term_def dot_term_def)

lemma terms_zero_right:
  "l1_term (v, 0) = 0" "chi_term (v, 0) = 0" "bhat_term (v, 0) = 0" "dot_term (v, 0) = 0"
  by (simp_all add: l1_term_def chi_term_def bhat_term_def dot_term_def)

lemma kl_entry_insert_other:
  "fst p \<noteq> k \<Longrightarrow> kl_entry (bow_insert k w b) p = kl_entry b p"
  by (simp add: kl_entry_def map_of_bow_insert_other)

lemma sum_list_one_entry_changed:
  fixes g g' :: "'k \<times> real \<Rightarrow> real"
  assumes "\<And>p. fst p \<noteq> k \<Longrightarrow> g' p = g p" and "g' (k, v) = g (k, v) - d"
  shows "distinct (map fst a) \<Longrightarrow> (k, v) \<in> set a \<Longrightarrow>
    sum_list (map g' a) = sum_list (map g a) - d"
proof (induction a)
  case Nil
  then show ?case by simp
next
  case (Cons p r)
  show ?case
  proof (cases "p = (k, v)")
    case True
    then have "\<forall>q \<in> set r. fst q \<noteq> k"
      using Cons.prems(1) by (auto simp: image_iff)
    then have eq: "map g' r = map g r"
      by (intro map_cong refl assms(1)) auto
    show ?thesis
      using assms(2) by (simp add: True eq)
  next
    case False
    then have "(k, v) \<in> set r" and "fst p \<noteq> k"
      using Cons.prems by (auto simp: image_iff)
    then show ?thesis
      using Cons assms(1) [of p] by simp
  qed
qed

subsection \<open>The KL score with zero weights\<close>

lemma dadd_Finite_0 [simp]: "dadd s (Finite 0) = s"
  by (cases s) auto

lemma dadd_Finite_Finite [simp]: "dadd (dadd s (Finite x)) (Finite y) = dadd s (Finite (x + y))"
  by (cases s) auto

lemma dadd_NaN_right [simp]: "dadd s NaN = NaN"
  by (cases s) auto

lemma KL_tail_entries:
  "list_all (\<lambda>p. 0 \<le> snd p) r \<Longrightarrow>
   KL_tail r s = dadd s (Finite (sum_list (map (kl_entry []) r)))"
proof (induction r arbitrary: s)
  case Nil
  then show ?case by simp
next
  case (Cons p r)
  have "(if snd p \<noteq> 0
         then dadd s (dmul (snd p) (dsub (dlog (Finite (snd p))) (Finite LOG_EPS)))
         else s) = dadd s (Finite (kl_entry [] p))"
    using Cons.prems by (auto simp: dsub_def kl_entry_def)
  then show ?case
    using Cons by simp
qed

lemma kl_nan_drop_key:
  "k < fst p \<Longrightarrow> kl_nan ((k, w) # b) p \<longleftrightarrow> kl_nan b p"
  by (auto simp: kl_nan_def)

lemma KL_merge_entries:
  fixes a b :: "('k::linorder) BowVector"
  shows "sorted_wrt (<) (map fst a) \<Longrightarrow> sorted_wrt (<) (map fst b) \<Longrightarrow>
   list_all (\<lambda>p. 0 \<le> snd p) a \<Longrightarrow> list_all (\<lambda>p. 0 \<le> snd p) b \<Longrightarrow>
   KL_tail (fst (KL_merge a b s)) (snd (KL_merge a b s))
     = (if \<exists>p \<in> set a. kl_nan b p then NaN
        else dadd s (Finite (sum_list (map (kl_entry b) a))))"
proof (induction a b arbitrary: s rule: matched.induct)
  case (1 k1 vi r1 k2 wi r2)
  let ?a = "(k1, vi) # r1" and ?b = "(k2, wi) # r2"
  have wi: "0 \<le> wi" and vi: "0 \<le> vi"
    using "1.prems"(3,4) by auto
  have s1: "sorted_wrt (<) (map fst r1)" and s2: "sorted_wrt (<) (map fst r2)"
    and n1: "list_all (\<lambda>p. 0 \<le> snd p) r1" and n2: "list_all (\<lambda>p. 0 \<le> snd p) r2"
    using "1.prems" by simp_all
  consider (eq) "k1 = k2" | (lt) "k1 \<noteq> k2" "k1 < k2" | (gt) "k1 \<noteq> k2" "\<not> k1 < k2" "k2 < k1"
    by (meson less_linear)
  then show ?case
  proof cases
    case eq
    have above: "\<forall>p \<in> set r1. k2 < fst p"
      using "1.prems"(1) eq by auto
    then have keys: "\<forall>p \<in> set r1. fst p \<noteq> k2"
      by auto
    have nan: "(\<exists>p \<in> set ?a. kl_nan ?b p) \<longleftrightarrow> (\<exists>p \<in> set r1. kl_nan r2 p)"
      using above eq by (auto simp: kl_nan_drop_key) (auto simp: kl_nan_def)
    have step: "(if vi \<noteq> 0 \<and> wi \<noteq> 0
        then dadd s (dmul vi (dlog (Finite (vi / wi)))) else s)
        = dadd s (Finite (kl_entry ?b (k1, vi)))"
      using eq vi wi by (auto simp: kl_entry_def)
    have m: "KL_merge ?a ?b s = KL_merge r1 r2 (dadd s (Finite (kl_entry ?b (k1, vi))))"
      unfolding step [symmetric] using eq by simp
    show ?thesis
      unfolding m nan "1.IH"(1) [OF eq s1 s2 n1 n2]
      using kl_entry_sum_drop_key [OF keys, of wi r2] by simp
  next
    case lt
    have notin: "k1 \<notin> fst ` set ?b"
      using lt "1.prems"(2) by auto
    then have none: "map_of ?b k1 = None"
      by (simp only: map_of_eq_None_iff not_False_eq_True)
    have head: "kl_nan ?b (k1, vi) \<longleftrightarrow> vi = 0"
      using notin lt by (auto simp: kl_nan_def)
    have step: "dadd s (dmul vi (dsub (dlog (Finite vi)) (Finite LOG_EPS)))
        = (if vi = 0 then NaN else dadd s (Finite (kl_entry ?b (k1, vi))))"
      using vi none by (auto simp: dsub_def kl_entry_def)
    have m: "KL_merge ?a ?b s
        = KL_merge r1 ?b (if vi = 0 then NaN else dadd s (Finite (kl_entry ?b (k1, vi))))"
      unfolding step [symmetric] using lt by simp
    show ?thesis
      unfolding m "1.IH"(2) [OF lt s1 "1.prems"(2) n1 "1.prems"(4)]
      using head by auto
  next
    case gt
    have above: "\<forall>p \<in> set ?a. k2 < fst p"
      using "1.prems"(1) gt by auto
    then have keys: "\<forall>p \<in> set ?a. fst p \<noteq> k2"
      by auto
    have nan: "(\<exists>p \<in> set ?a. kl_nan ?b p) \<longleftrightarrow> (\<exists>p \<in> set ?a. kl_nan r2 p)"
      using above by (auto simp: kl_nan_drop_key)
    have m: "KL_merge ?a ?b s = KL_merge ?a r2 s"
      using gt by simp
    show ?thesis
      unfolding m nan "1.IH"(3) [OF gt(1,2) "1.prems"(1) s2 "1.prems"(3) n2]
      using kl_entry_sum_drop_key [OF keys, of wi r2] by simp
  qed
next
  case (2 b)
  then show ?case by simp
next
  case (3 p r)
  then show ?case
    using KL_tail_entries [of "p # r" s] by (simp add: kl_nan_def)
qed

lemma KL_score_entries:
  assumes "bow_inv a" and "bow_inv b"
  shows "KL_score a b =
    Some (if \<exists>p \<in> set a. kl_nan b p then NaN else Finite (sum_list (map (kl_entry b) a)))"
  using KL_merge_entries [OF bow_inv_sorted [OF assms(1)] bow_inv_sorted [OF assms(2)]
      bow_inv_nonneg [OF assms(1)] bow_inv_nonneg [OF assms(2)], of "Finite 0"]
    KL_score_merge [OF bow_inv_sorted [OF assms(2)], of a]
  by simp

subsection \<open>Scores after the insertion of a zero weight\<close>

lemma insert_zero_left:
  assumes a: "bow_inv a" and b: "bow_inv b" and k: "k \<notin> fst ` set a"
  shows "L1_score (bow_insert k 0 a) b = L1_score a b"
    and "ChiSquare_score (bow_insert k 0 a) b = ChiSquare_score a b"
    and "Bhattacharyya_score (bow_insert k 0 a) b = Bhattacharyya_score a b"
    and "DotProduct_score (bow_insert k 0 a) b = DotProduct_score a b"
proof -
  note sa = bow_inv_sorted [OF a] and sb = bow_inv_sorted [OF b]
  note si = sorted_bow_insert [OF sa, of k 0]
  note m = matched_insert_zero_left [OF sa sb k]
  show "L1_score (bow_insert k 0 a) b = L1_score a b"
    by (simp add: L1_score_matched m terms_zero_left)
  show "ChiSquare_score (bow_insert k 0 a) b = ChiSquare_score a b"
    by (simp add: ChiSquare_score_matched [OF si sb] ChiSquare_score_matched [OF sa sb]
        m terms_zero_left)
  show "Bhattacharyya_score (bow_insert k 0 a) b = Bhattacharyya_score a b"
    by (simp add: Bhattacharyya_score_matched [OF si sb] Bhattacharyya_score_matched [OF sa sb]
        m terms_zero_left)
  show "DotProduct_score (bow_insert k 0 a) b = DotProduct_score a b"
    by (simp add: DotProduct_score_matched [OF si sb] DotProduct_score_matched [OF sa sb]
        m terms_zero_left)
qed

lemma insert_zero_right:
  assumes a: "bow_inv a" and b: "bow_inv b" and k: "k \<notin> fst ` set b"
  shows "L1_score a (bow_insert k 0 b) = L1_score a b"
    and "ChiSquare_score a (bow_insert k 0 b) = ChiSquare_score a b"
    and "Bhattacharyya_score a (bow_insert k 0 b) = Bhattacharyya_score a b"
    and "DotProduct_score a (bow_insert k 0 b) = DotProduct_score a b"
proof -
  note sa = bow_inv_sorted [OF a] and sb = bow_inv_sorted [OF b]
  note si = sorted_bow_insert [OF sb, of k 0]
  note m = matched_insert_zero_right [OF sa sb k]
  show "L1_score a (bow_insert k 0 b) = L1_score a b"
    by (simp add: L1_score_matched m terms_zero_right)
  show "ChiSquare_score a (bow_insert k 0 b) = ChiSquare_score a b"
    by (simp add: ChiSquare_score_matched [OF sa si] ChiSquare_score_matched [OF sa sb]
        m terms_zero_right)
  show "Bhattacharyya_score a (bow_insert k 0 b) = Bhattacharyya_score a b"
    by (simp add: Bhattacharyya_score_matched [OF sa si] Bhattacharyya_score_matched [OF sa sb]
        m terms_zero_right)
  show "DotProduct_score a (bow_insert k 0 b) = DotProduct_score a b"
    by (simp add: DotProduct_score_matched [OF sa si] DotProduct_score_matched [OF sa sb]
        m terms_zero_right)
qed

lemma kl_entry_zero: "kl_entry b (k, 0) = 0"
  by (simp add: kl_entry_def split: option.splits)

lemma KL_insert_zero_left:
  assumes a: "bow_inv a" and b: "bow_inv b"
    and k: "k \<notin> fst ` set a" and kb: "k \<in> fst ` set b \<or> (\<forall>q \<in> set b. fst q < k)"
  shows "KL_score (bow_insert k 0 a) b = KL_score a b"
proof -
  have "\<not> kl_nan b (k, 0)"
    using kb by (auto simp: kl_nan_def)
  then have "(\<exists>p \<in> set (bow_insert k 0 a). kl_nan b p) \<longleftrightarrow> (\<exists>p \<in> set a. kl_nan b p)"
    by (auto simp: set_bow_insert_absent [OF k])
  moreover have "sum_list (map (kl_entry b) (bow_insert k 0 a)) = sum_list (map (kl_entry b) a)"
    by (simp add: sum_list_bow_insert [OF k] kl_entry_zero)
  moreover have "bow_inv (bow_insert k 0 a)"
    using a by (simp add: bow_inv_insert)
  ultimately show ?thesis
    using KL_score_entries [OF _ b, of "bow_insert k 0 a"] KL_score_entries [OF a b]
    by simp
qed

lemma KL_insert_zero_right:
  assumes a: "bow_inv a" and b: "bow_inv b"
    and kb: "k \<notin> fst ` set b"
    and z: "\<forall>p \<in> set a. snd p = 0 \<and> fst p < k \<longrightarrow> (\<exists>q \<in> set b. fst p \<le> fst q)"
    and ka: "\<forall>p \<in> set a. fst p = k \<longrightarrow> snd p = 0 \<and> (\<forall>q \<in> set b. fst q < k)"
  shows "KL_score a (bow_insert k 0 b) = KL_score a b"
proof -
  let ?b = "bow_insert k 0 b"
  have sb: "set ?b = insert (k, 0) (set b)"
    using kb by (rule set_bow_insert_absent)
  have "kl_nan ?b p \<longleftrightarrow> kl_nan b p" if p: "p \<in> set a" for p
  proof (cases "fst p = k")
    case True
    then have "\<forall>q \<in> set b. fst q < fst p"
      using ka p by blast
    then have "\<not> kl_nan b p"
      by (auto simp: kl_nan_def)
    moreover have "\<not> kl_nan ?b p"
      using True by (simp add: kl_nan_def sb)
    ultimately show ?thesis
      by simp
  next
    case False
    show ?thesis
    proof
      assume n: "kl_nan ?b p"
      then have zero: "snd p = 0" and out: "fst p \<notin> fst ` set b"
        by (auto simp: kl_nan_def sb)
      from n have "fst p < k \<or> (\<exists>q \<in> set b. fst p < fst q)"
        by (auto simp: kl_nan_def sb)
      then have "\<exists>q \<in> set b. fst p < fst q"
      proof
        assume "fst p < k"
        then obtain q where q: "q \<in> set b" "fst p \<le> fst q"
          using z p zero by blast
        then have "fst p \<noteq> fst q"
          using out by auto
        then show ?thesis
          using q by (auto simp: less_le)
      qed
      then show "kl_nan b p"
        using zero out by (simp add: kl_nan_def)
    next
      assume n: "kl_nan b p"
      then show "kl_nan ?b p"
        using False by (auto simp: kl_nan_def sb)
    qed
  qed
  then have nan: "(\<exists>p \<in> set a. kl_nan ?b p) \<longleftrightarrow> (\<exists>p \<in> set a. kl_nan b p)"
    by blast
  have "kl_entry ?b p = kl_entry b p" if p: "p \<in> set a" for p
  proof (cases "fst p = k")
    case True
    then have "p = (k, 0)"
      using ka p by (metis prod.collapse)
    then show ?thesis
      by (simp add: kl_entry_zero)
  next
    case False
    then show ?thesis
      by (rule kl_entry_insert_other)
  qed
  then have eq: "map (kl_entry ?b) a = map (kl_entry b) a"
    by (intro map_cong refl)
  have bi: "bow_inv ?b"
    using b by (simp add: bow_inv_insert)
  show ?thesis
    unfolding KL_score_entries [OF a bi] KL_score_entries [OF a b] nan eq ..
qed

lemma KL_insert_zero_right_matched:
  assumes a: "bow_inv a" and b: "bow_inv b"
    and kv: "(k, v) \<in> set a" and v: "v \<noteq> 0" and kb: "k \<notin> fst ` set b"
    and fin: "KL_score a (bow_insert k 0 b) \<noteq> Some NaN"
  shows "\<exists>s. KL_score a b = Some (Finite s)
    \<and> KL_score a (bow_insert k 0 b) = Some (Finite (s - v * (ln v - LOG_EPS)))"
proof -
  let ?b = "bow_insert k 0 b"
  have sb: "set ?b = insert (k, 0) (set b)"
    using kb by (rule set_bow_insert_absent)
  have dist: "distinct (map fst a)"
    using bow_inv_sorted [OF a] by (simp add: strict_sorted_iff)
  have bi: "bow_inv ?b"
    using b by (simp add: bow_inv_insert)
  note 1 = KL_score_entries [OF a bi]
  have "KL_score a ?b = Some NaN" if "\<exists>p \<in> set a. kl_nan ?b p"
    unfolding 1 using that by simp
  then have nonan: "\<not> (\<exists>p \<in> set a. kl_nan ?b p)"
    using fin by blast
  have "\<not> kl_nan b p" if p: "p \<in> set a" for p
  proof
    assume n: "kl_nan b p"
    then have "snd p = 0" by (simp add: kl_nan_def)
    then have "fst p \<noteq> k"
      using kv v p dist by (metis eq_key_imp_eq_value prod.collapse)
    then have "kl_nan ?b p"
      using n by (auto simp: kl_nan_def sb)
    then show False
      using nonan p by blast
  qed
  then have 2: "KL_score a b = Some (Finite (sum_list (map (kl_entry b) a)))"
    using KL_score_entries [OF a b] by auto
  have "map_of b k = None"
    using kb by (simp only: map_of_eq_None_iff not_False_eq_True)
  then have "kl_entry ?b (k, v) = kl_entry b (k, v) - v * (ln v - LOG_EPS)"
    by (simp add: kl_entry_def map_of_bow_insert_same [OF kb])
  then have "sum_list (map (kl_entry ?b) a)
      = sum_list (map (kl_entry b) a) - v * (ln v - LOG_EPS)"
    using dist kv by (intro sum_list_one_entry_changed kl_entry_insert_other)
  then show ?thesis
    using 1 2 nonan by simp
qed

subsection \<open>The parallel traversal of L2\<close>

lemma L2_visit_append: "L2_visit v2 p1 ps = ps @ L2_visit v2 p1 []"
  by (simp add: L2_visit_def split: option.splits)

lemma L2_visit_Nil_cases:
  "L2_visit v2 p1 [] = [] \<or> (\<exists>val. L2_visit v2 p1 [] = [val])"
  by (simp add: L2_visit_def split: option.splits)

text \<open>Visiting the entries one after the other, each to its end, is one of the runs.\<close>

lemma L2_par_run_serial:
  "L2_par_run v2 pending [] ps (length ps) (fold (L2_visit v2) pending ps)"
proof (induction pending arbitrary: ps)
  case Nil
  show ?case
    using L2_par_run.finished [of v2 ps "length ps"] by simp
next
  case (Cons p1 r)
  show ?case
    using L2_visit_Nil_cases [of v2 p1]
  proof
    assume e: "L2_visit v2 p1 [] = []"
    then have "L2_visit v2 p1 ps = ps"
      using L2_visit_append [of v2 p1 ps] by simp
    then show ?thesis
      using L2_par_run.no_push [of p1 "p1 # r" v2 "[]" ps "length ps", OF _ e] Cons [of ps]
      by simp
  next
    assume "\<exists>val. L2_visit v2 p1 [] = [val]"
    then obtain val where e: "L2_visit v2 p1 [] = [val]" ..
    then have v: "L2_visit v2 p1 ps = ps @ [val]"
      using L2_visit_append [of v2 p1 ps] by simp
    have "L2_par_run v2 r [(length ps, val)] ps (length ps)
        (fold (L2_visit v2) r (ps @ [val]))"
      using L2_par_run.push_back_stores
          [of "length ps" val "[(length ps, val)]" v2 r ps _ "length ps"]
        Cons [of "ps @ [val]"] by simp
    then show ?thesis
      using L2_par_run.push_back_reads_end [of p1 "p1 # r" v2 val "length ps" "[]" ps, OF _ e]
      by (simp add: v)
  qed
qed

lemma L2_par_run_partialScores: "L2_par_run v2 v1 [] [] 0 (L2_partialScores v1 v2)"
  using L2_par_run_serial [of v2 v1 "[]"] by (simp add: L2_partialScores_def)

subsection \<open>Rounding to a double\<close>



subsection \<open>The Chi-Square loop in double arithmetic, unfolded once\<close>


lemma ChiSquare_loop_double_Nil2: "ChiSquare_loop_double v1 v2 it1 [] s = Some s"
  by (subst ChiSquare_loop_double.simps) simp


section \<open>The claims\<close>

text \<open>
  C1 (as the code has it).  For \<open>a = b = {1: 0.5, 3: 0.5}\<close> the L1 score is \<open>1\<close>: each
  of the two matched keys adds \<open>|0.5 - 0.5| - 0.5 - 0.5 = -1\<close>, the sum is \<open>-2\<close> and the
  score \<open>-(-2)/2\<close>.  The Bhattacharyya score is \<open>1\<close> and the dot product \<open>0.5\<close>.
\<close>

theorem scenario_1_scores:
  "L1_score [(1::nat, 1/2), (3, 1/2)] [(1, 1/2), (3, 1/2)] = 1
   \<and> Bhattacharyya_score [(1::nat, 1/2), (3, 1/2)] [(1, 1/2), (3, 1/2)] = Some 1
   \<and> DotProduct_score [(1::nat, 1/2), (3, 1/2)] [(1, 1/2), (3, 1/2)] = Some (1/2)"
  by (simp add: L1_score_def Bhattacharyya_score_def DotProduct_score_def loop_simps
      bhat_term_same dot_term_def)

text \<open>C1 as the specification states it, with an L1 score of \<open>0.5\<close>, does not hold.\<close>

theorem scenario_1_L1_not_half:
  "\<not> (L1_score [(1::nat, 1/2), (3, 1/2)] [(1, 1/2), (3, 1/2)] = 1/2
      \<and> Bhattacharyya_score [(1::nat, 1/2), (3, 1/2)] [(1, 1/2), (3, 1/2)] = Some 1
      \<and> DotProduct_score [(1::nat, 1/2), (3, 1/2)] [(1, 1/2), (3, 1/2)] = Some (1/2))"
  by (simp add: L1_score_def)

text \<open>
  C2 (as the code has it).  For valid \<open>a\<close> and \<open>b\<close>, a zero weight inserted at a new
  key of \<open>a\<close> or of \<open>b\<close> leaves the L1, Chi-Square, Bhattacharyya and dot-product scores
  as they were.  The KL score is as it was
  \<^item> after a zero is inserted into \<open>a\<close> at a key of \<open>b\<close>, or at a key above every key
    of \<open>b\<close>;
  \<^item> after a zero is inserted into \<open>b\<close> at a key where \<open>a\<close> has no entry, or has a zero
    weight above every key of \<open>b\<close>, when every zero weight that \<open>a\<close> stores at a key
    below the new one has a key of \<open>b\<close> at or above it.

  A zero inserted into \<open>b\<close> at a key where \<open>a\<close> has the non-zero weight \<open>v\<close> is not
  read as an absent key: the matched pair is skipped, and the score, when it is not
  NaN, is the former score less the penalty \<open>v * (ln v - LOG_EPS)\<close> of that key (the
  sums taken in exact arithmetic).
\<close>

theorem zero_weight_insertion:
  assumes "bow_inv a" and "bow_inv b"
  shows "(k \<notin> fst ` set a \<longrightarrow>
        L1_score (bow_insert k 0 a) b = L1_score a b
        \<and> ChiSquare_score (bow_insert k 0 a) b = ChiSquare_score a b
        \<and> Bhattacharyya_score (bow_insert k 0 a) b = Bhattacharyya_score a b
        \<and> DotProduct_score (bow_insert k 0 a) b = DotProduct_score a b)
    \<and> (k \<notin> fst ` set b \<longrightarrow>
        L1_score a (bow_insert k 0 b) = L1_score a b
        \<and> ChiSquare_score a (bow_insert k 0 b) = ChiSquare_score a b
        \<and> Bhattacharyya_score a (bow_insert k 0 b) = Bhattacharyya_score a b
        \<and> DotProduct_score a (bow_insert k 0 b) = DotProduct_score a b)
    \<and> (k \<notin> fst ` set a \<and> (k \<in> fst ` set b \<or> (\<forall>q \<in> set b. fst q < k)) \<longrightarrow>
        KL_score (bow_insert k 0 a) b = KL_score a b)
    \<and> (k \<notin> fst ` set b
        \<and> (\<forall>p \<in> set a. fst p = k \<longrightarrow> snd p = 0 \<and> (\<forall>q \<in> set b. fst q < k))
        \<and> (\<forall>p \<in> set a. snd p = 0 \<and> fst p < k \<longrightarrow> (\<exists>q \<in> set b. fst p \<le> fst q)) \<longrightarrow>
        KL_score a (bow_insert k 0 b) = KL_score a b)
    \<and> ((k, v) \<in> set a \<and> v \<noteq> 0 \<and> k \<notin> fst ` set b
        \<and> KL_score a (bow_insert k 0 b) \<noteq> Some NaN \<longrightarrow>
        (\<exists>s. KL_score a b = Some (Finite s)
           \<and> KL_score a (bow_insert k 0 b) = Some (Finite (s - v * (ln v - LOG_EPS)))))"
  using insert_zero_left [OF assms, of k] insert_zero_right [OF assms, of k]
    KL_insert_zero_left [OF assms, of k] KL_insert_zero_right [OF assms, of k]
    KL_insert_zero_right_matched [OF assms, of k v]
  by blast

theorem zero_weight_insertion_witness:
  "bow_inv [(1::nat, 1/2), (3, 1/2)] \<and> bow_inv [(1::nat, 1/4), (2, 3/4)]
   \<and> bow_inv [(1::nat, 1/2), (5, 0)]
   \<and> 2 \<notin> fst ` set [(1::nat, 1/2 :: real), (3, 1/2)]
   \<and> 2 \<in> fst ` set [(1::nat, 1/4 :: real), (2, 3/4)]
   \<and> 3 \<notin> fst ` set [(1::nat, 1/4 :: real), (2, 3/4)]
   \<and> 4 \<notin> fst ` set [(1::nat, 1/2 :: real), (3, 1/2)]
   \<and> 4 \<notin> fst ` set [(1::nat, 1/4 :: real), (2, 3/4)]
   \<and> 5 \<notin> fst ` set [(1::nat, 1/4 :: real), (2, 3/4)]
   \<and> L1_score [(1::nat, 1/2), (2, 0), (3, 1/2)] [(1, 1/4), (2, 3/4)]
       = L1_score [(1::nat, 1/2), (3, 1/2)] [(1, 1/4), (2, 3/4)]
   \<and> ChiSquare_score [(1::nat, 1/2), (2, 0), (3, 1/2)] [(1, 1/4), (2, 3/4)]
       = ChiSquare_score [(1::nat, 1/2), (3, 1/2)] [(1, 1/4), (2, 3/4)]
   \<and> KL_score [(1::nat, 1/2), (2, 0), (3, 1/2)] [(1, 1/4), (2, 3/4)]
       = KL_score [(1::nat, 1/2), (3, 1/2)] [(1, 1/4), (2, 3/4)]
   \<and> KL_score [(1::nat, 1/2), (3, 1/2), (4, 0)] [(1, 1/4), (2, 3/4)]
       = KL_score [(1::nat, 1/2), (3, 1/2)] [(1, 1/4), (2, 3/4)]
   \<and> Bhattacharyya_score [(1::nat, 1/2), (3, 1/2)] [(1, 1/4), (2, 3/4), (3, 0)]
       = Bhattacharyya_score [(1::nat, 1/2), (3, 1/2)] [(1, 1/4), (2, 3/4)]
   \<and> DotProduct_score [(1::nat, 1/2), (3, 1/2)] [(1, 1/4), (2, 3/4), (3, 0)]
       = DotProduct_score [(1::nat, 1/2), (3, 1/2)] [(1, 1/4), (2, 3/4)]
   \<and> KL_score [(1::nat, 1/2), (3, 1/2)] [(1, 1/4), (2, 3/4), (3, 0)] \<noteq> Some NaN
   \<and> (\<exists>s. KL_score [(1::nat, 1/2), (3, 1/2)] [(1, 1/4), (2, 3/4)] = Some (Finite s)
        \<and> KL_score [(1::nat, 1/2), (3, 1/2)] [(1, 1/4), (2, 3/4), (3, 0)]
            = Some (Finite (s - 1/2 * (ln (1/2) - LOG_EPS))))
   \<and> KL_score [(1::nat, 1/2), (3, 1/2)] [(1, 1/4), (2, 3/4), (4, 0)]
       = KL_score [(1::nat, 1/2), (3, 1/2)] [(1, 1/4), (2, 3/4)]
   \<and> KL_score [(1::nat, 1/2), (5, 0)] [(1, 1/4), (2, 3/4), (5, 0)]
       = KL_score [(1::nat, 1/2), (5, 0)] [(1, 1/4), (2, 3/4)]"
proof -
  let ?a = "[(1::nat, 1/2 :: real), (3, 1/2)]" and ?b = "[(1::nat, 1/4 :: real), (2, 3/4)]"
  let ?c = "[(1::nat, 1/2 :: real), (5, 0)]"
  have a: "bow_inv ?a" and b: "bow_inv ?b" and c: "bow_inv ?c"
    by (simp_all add: bow_inv_def)
  have k2: "2 \<notin> fst ` set ?a" "2 \<in> fst ` set ?b"
    and k3: "3 \<notin> fst ` set ?b" "(3, 1/2) \<in> set ?a" "(1/2 :: real) \<noteq> 0"
    and k4: "4 \<notin> fst ` set ?a" "4 \<notin> fst ` set ?b" "\<forall>q \<in> set ?b. fst q < 4"
      "\<forall>p \<in> set ?a. fst p = 4 \<longrightarrow> snd p = 0 \<and> (\<forall>q \<in> set ?b. fst q < 4)"
      "\<forall>p \<in> set ?a. snd p = 0 \<and> fst p < 4 \<longrightarrow> (\<exists>q \<in> set ?b. fst p \<le> fst q)"
    and k5: "5 \<notin> fst ` set ?b"
      "\<forall>p \<in> set ?c. fst p = 5 \<longrightarrow> snd p = 0 \<and> (\<forall>q \<in> set ?b. fst q < 5)"
      "\<forall>p \<in> set ?c. snd p = 0 \<and> fst p < 5 \<longrightarrow> (\<exists>q \<in> set ?b. fst p \<le> fst q)"
    by simp_all
  have i2: "bow_insert 2 0 ?a = [(1, 1/2), (2, 0), (3, 1/2)]"
    and i3: "bow_insert 3 0 ?b = [(1, 1/4), (2, 3/4), (3, 0)]"
    and i4: "bow_insert 4 0 ?b = [(1, 1/4), (2, 3/4), (4, 0)]"
    and j4: "bow_insert 4 0 ?a = [(1, 1/2), (3, 1/2), (4, 0)]"
    and i5: "bow_insert 5 0 ?b = [(1, 1/4), (2, 3/4), (5, 0)]"
    by simp_all
  have fin: "KL_score ?a [(1, 1/4), (2, 3/4), (3, 0)] \<noteq> Some NaN"
    by (simp add: KL_score_def loop_simps lower_bound_def dsub_def)
  note t2 = zero_weight_insertion [OF a b, of 2 0, unfolded i2]
  note t3 = zero_weight_insertion [OF a b, of 3 "1/2", unfolded i3]
  note t4 = zero_weight_insertion [OF a b, of 4 0, unfolded i4 j4]
  note t5 = zero_weight_insertion [OF c b, of 5 0, unfolded i5]
  have "L1_score [(1::nat, 1/2), (2, 0), (3, 1/2)] ?b = L1_score ?a ?b"
    and "ChiSquare_score [(1::nat, 1/2), (2, 0), (3, 1/2)] ?b = ChiSquare_score ?a ?b"
    and "KL_score [(1::nat, 1/2), (2, 0), (3, 1/2)] ?b = KL_score ?a ?b"
    using t2 k2 by blast+
  moreover have "Bhattacharyya_score ?a [(1, 1/4), (2, 3/4), (3, 0)] = Bhattacharyya_score ?a ?b"
    and "DotProduct_score ?a [(1, 1/4), (2, 3/4), (3, 0)] = DotProduct_score ?a ?b"
    and "\<exists>s. KL_score ?a ?b = Some (Finite s)
        \<and> KL_score ?a [(1, 1/4), (2, 3/4), (3, 0)] = Some (Finite (s - 1/2 * (ln (1/2) - LOG_EPS)))"
    using t3 k3 fin by blast+
  moreover have "KL_score [(1::nat, 1/2), (3, 1/2), (4, 0)] ?b = KL_score ?a ?b"
    and "KL_score ?a [(1, 1/4), (2, 3/4), (4, 0)] = KL_score ?a ?b"
    using t4 k4 by blast+
  moreover have "KL_score ?c [(1, 1/4), (2, 3/4), (5, 0)] = KL_score ?c ?b"
    using t5 k5 by blast
  ultimately show ?thesis
    using a b c k2 k3(1) k4(1,2) k5(1) fin by blast
qed

text \<open>
  C2 as stated, for every variant: the KL score of \<open>a = {1: 0.5}\<close> against the empty
  vector is the penalty \<open>0.5 * (ln 0.5 - LOG_EPS)\<close>, and against \<open>{1: 0}\<close> it is \<open>0\<close>.
\<close>

theorem KL_score_zero_weight_is_not_absence:
  "bow_inv [(1::nat, 1/2)] \<and> bow_inv ([] :: nat BowVector)
   \<and> 1 \<notin> fst ` set ([] :: nat BowVector)
   \<and> KL_score [(1::nat, 1/2)] (bow_insert 1 0 []) \<noteq> KL_score [(1::nat, 1/2)] []"
proof -
  have "ln (1/2 :: real) \<noteq> ln (1 / 2 ^ 52)"
    by (subst ln_inj_iff) simp_all
  then show ?thesis
    by (simp add: bow_inv_def KL_score_def loop_simps dsub_def LOG_EPS_def DBL_EPSILON_def)
qed

text \<open>
  C3.  The KL score is not finite for every valid pair: a zero weight of \<open>a\<close> at a key
  below a key of \<open>b\<close> goes through the branch that takes \<open>log(vi)\<close> unguarded, and
  \<open>0 * (log(0) - LOG_EPS)\<close> is \<open>0 * -inf\<close>, NaN.  At \<open>a = {1: 0}\<close>, \<open>b = {2: 0.5}\<close> the
  score is NaN.
\<close>

theorem KL_score_zero_weight_NaN:
  "KL_score [(1::nat, 0)] [(2, 1/2)] = Some NaN"
  by (simp add: KL_score_def loop_simps dsub_def)

text \<open>
  C4 (as the code has it, in exact arithmetic).  For valid \<open>a\<close> and \<open>b\<close> the L1 score,
  computed without the rounding of \<open>double\<close>, is the sum of \<open>min vi wi\<close> over the
  matched keys: it is at least \<open>0\<close> and at most the smaller of the two total weights, so
  it lies in \<open>[0,1]\<close> when the weights of \<open>a\<close> or those of \<open>b\<close> sum to at most \<open>1\<close>.
\<close>

theorem L1_score_range:
  assumes "bow_inv a" and "bow_inv b"
  shows "0 \<le> L1_score a b
    \<and> L1_score a b \<le> min (total_weight a) (total_weight b)
    \<and> (total_weight a \<le> 1 \<or> total_weight b \<le> 1 \<longrightarrow> L1_score a b \<le> 1)"
proof -
  note nn = bow_inv_nonneg [OF assms(1)] bow_inv_nonneg [OF assms(2)]
  have eq: "L1_score a b = sum_list (map (\<lambda>p. min (fst p) (snd p)) (matched a b))"
    using nn by (rule L1_score_min)
  have "0 \<le> L1_score a b"
    unfolding eq using matched_nonneg [OF nn] by (rule sum_min_nonneg)
  moreover have "L1_score a b \<le> total_weight a"
    unfolding eq using nn by (rule matched_min_le_left)
  moreover have "L1_score a b \<le> total_weight b"
    unfolding eq using nn by (rule matched_min_le_right)
  ultimately show ?thesis by auto
qed

theorem L1_score_range_witness:
  "bow_inv [(1::nat, 1/2)] \<and> bow_inv [(1::nat, 1/4), (2, 3/4)]
   \<and> total_weight [(1::nat, 1/4), (2, 3/4)] \<le> 1
   \<and> 0 \<le> L1_score [(1::nat, 1/2)] [(1, 1/4), (2, 3/4)]
   \<and> L1_score [(1::nat, 1/2)] [(1, 1/4), (2, 3/4)] \<le> 1"
proof -
  have a: "bow_inv [(1::nat, 1/2)]" and b: "bow_inv [(1::nat, 1/4), (2, 3/4)]"
    by (simp_all add: bow_inv_def)
  have t: "total_weight [(1::nat, 1/4), (2, 3/4)] \<le> 1"
    by (simp add: total_weight_def)
  show ?thesis
    using a b t L1_score_range [OF a b] by blast
qed

text \<open>C4 as stated, with no bound on the weights: at \<open>a = b = {1: 2}\<close> the score is \<open>2\<close>.\<close>

theorem L1_score_above_one:
  "\<not> (0 \<le> L1_score [(1::nat, 2)] [(1, 2)] \<and> L1_score [(1::nat, 2)] [(1, 2)] \<le> 1)"
  by (simp add: L1_score_def)

text \<open>
  C5.  The L2 score is not the L1 score on every run.  At \<open>a = b = {1: 0.5, 3: 0.5}\<close>
  both entries push \<open>-1\<close>.  When the two \<open>push_back\<close> calls read the same end of the
  vector before either stores, the second store lands on the first: \<open>partialScores\<close>
  ends as \<open>[-1]\<close>, the L2 score is \<open>0.5\<close> and the L1 score is \<open>1\<close>.
\<close>

theorem L2_parallel_push_back_loses_a_score:
  "L2_par_run [(1::nat, 1/2), (3, 1/2)] [(1, 1/2), (3, 1/2)] [] [] 0 [- 1]
   \<and> L2_reduce [- 1] = 1/2
   \<and> L1_score [(1::nat, 1/2), (3, 1/2)] [(1, 1/2), (3, 1/2)] = 1"
proof -
  let ?b = "[(1::nat, 1/2 :: real), (3, 1/2)]"
  have v1: "L2_visit ?b (1, 1/2) [] = [- 1]" and v3: "L2_visit ?b (3, 1/2) [] = [- 1]"
    by (simp_all add: L2_visit_def bow_find_def)
  have "L2_par_run ?b [] [] [- 1] 1 [- 1]"
    using L2_par_run.finished [of ?b "[- 1]" 1] by simp
  then have "L2_par_run ?b [] [(0, - 1)] [- 1] 1 [- 1]"
    using L2_par_run.push_back_stores [of 0 "- 1" "[(0, - 1)]" ?b "[]" "[- 1]" "[- 1]" 1]
    by simp
  then have "L2_par_run ?b [] [(0, - 1), (0, - 1)] [] 0 [- 1]"
    using L2_par_run.push_back_stores
      [of 0 "- 1" "[(0, - 1), (0, - 1)]" ?b "[]" "[]" "[- 1]" 0]
    by simp
  then have "L2_par_run ?b [(3, 1/2)] [(0, - 1)] [] 0 [- 1]"
    using L2_par_run.push_back_reads_end
      [of "(3, 1/2)" "[(3, 1/2)]" ?b "- 1" 0 "[(0, - 1)]" "[]" "[- 1]", OF _ v3]
    by simp
  then have "L2_par_run ?b ?b [] [] 0 [- 1]"
    using L2_par_run.push_back_reads_end
      [of "(1, 1/2)" ?b ?b "- 1" 0 "[]" "[]" "[- 1]", OF _ v1]
    by simp
  moreover have "L2_reduce [- 1] = 1/2"
    by (simp add: L2_reduce_def)
  moreover have "L1_score ?b ?b = 1"
    by (simp add: L1_score_def)
  ultimately show ?thesis
    by blast
qed




text \<open>
  C7.  For valid \<open>a\<close> and \<open>b\<close> the L1, Chi-Square, Bhattacharyya and dot-product scores
  do not depend on the order of the two arguments; the KL score does, for some valid
  pair.
\<close>

theorem scores_symmetric:
  "(bow_inv a \<and> bow_inv b \<longrightarrow>
      L1_score a b = L1_score b a
      \<and> ChiSquare_score a b = ChiSquare_score b a
      \<and> Bhattacharyya_score a b = Bhattacharyya_score b a
      \<and> DotProduct_score a b = DotProduct_score b a)
   \<and> (\<exists>c d :: nat BowVector. bow_inv c \<and> bow_inv d \<and> KL_score c d \<noteq> KL_score d c)"
proof
  show "bow_inv a \<and> bow_inv b \<longrightarrow>
      L1_score a b = L1_score b a
      \<and> ChiSquare_score a b = ChiSquare_score b a
      \<and> Bhattacharyya_score a b = Bhattacharyya_score b a
      \<and> DotProduct_score a b = DotProduct_score b a"
  proof
    assume ab: "bow_inv a \<and> bow_inv b"
    then have sa: "sorted_wrt (<) (map fst a)" and sb: "sorted_wrt (<) (map fst b)"
      by (simp_all add: bow_inv_sorted)
    have sw: "sum_list (map f (matched b a)) = sum_list (map (f \<circ> prod.swap) (matched a b))"
      for f :: "real \<times> real \<Rightarrow> real"
      by (subst matched_swap [of b a]) (simp add: comp_def)
    have "l1_term \<circ> prod.swap = l1_term" "chi_term \<circ> prod.swap = chi_term"
      "bhat_term \<circ> prod.swap = bhat_term" "dot_term \<circ> prod.swap = dot_term"
      by (auto simp: fun_eq_iff l1_term_def chi_term_def bhat_term_def dot_term_def ac_simps)
    then show "L1_score a b = L1_score b a
      \<and> ChiSquare_score a b = ChiSquare_score b a
      \<and> Bhattacharyya_score a b = Bhattacharyya_score b a
      \<and> DotProduct_score a b = DotProduct_score b a"
      by (simp add: L1_score_matched ChiSquare_score_matched [OF sa sb]
          ChiSquare_score_matched [OF sb sa] Bhattacharyya_score_matched [OF sa sb]
          Bhattacharyya_score_matched [OF sb sa] DotProduct_score_matched [OF sa sb]
          DotProduct_score_matched [OF sb sa] sw)
  qed
next
  have "ln (1/2 :: real) < 0" and "0 < 2 * ln (2 :: real)"
    by simp_all
  then have neq: "ln (1/2 :: real) \<noteq> 2 * ln 2"
    by linarith
  have "bow_inv [(1::nat, 1)]" and "bow_inv [(1::nat, 2)]"
    by (simp_all add: bow_inv_def)
  moreover have "KL_score [(1::nat, 1)] [(1, 2)] \<noteq> KL_score [(1::nat, 2)] [(1, 1)]"
    by (simp add: KL_score_def loop_simps neq)
  ultimately show "\<exists>c d :: nat BowVector. bow_inv c \<and> bow_inv d \<and> KL_score c d \<noteq> KL_score d c"
    by blast
qed

theorem scores_symmetric_witness:
  "bow_inv [(1::nat, 1/2), (3, 1/2)] \<and> bow_inv [(1::nat, 1/4), (2, 3/4)]
   \<and> L1_score [(1::nat, 1/2), (3, 1/2)] [(1, 1/4), (2, 3/4)]
       = L1_score [(1::nat, 1/4), (2, 3/4)] [(1, 1/2), (3, 1/2)]
   \<and> ChiSquare_score [(1::nat, 1/2), (3, 1/2)] [(1, 1/4), (2, 3/4)]
       = ChiSquare_score [(1::nat, 1/4), (2, 3/4)] [(1, 1/2), (3, 1/2)]
   \<and> Bhattacharyya_score [(1::nat, 1/2), (3, 1/2)] [(1, 1/4), (2, 3/4)]
       = Bhattacharyya_score [(1::nat, 1/4), (2, 3/4)] [(1, 1/2), (3, 1/2)]
   \<and> DotProduct_score [(1::nat, 1/2), (3, 1/2)] [(1, 1/4), (2, 3/4)]
       = DotProduct_score [(1::nat, 1/4), (2, 3/4)] [(1, 1/2), (3, 1/2)]"
proof -
  have a: "bow_inv [(1::nat, 1/2), (3, 1/2)]" and b: "bow_inv [(1::nat, 1/4), (2, 3/4)]"
    by (simp_all add: bow_inv_def)
  show ?thesis
    using a b scores_symmetric [of "[(1::nat, 1/2), (3, 1/2)]" "[(1::nat, 1/4), (2, 3/4)]"] by blast
qed

text \<open>
  C8.  Every score but KL is \<open>0\<close> when either argument is empty.  The KL score of a
  valid \<open>a\<close> against the empty vector is the sum of \<open>vi * (ln vi - LOG_EPS)\<close> over the
  non-zero weights of \<open>a\<close>; for \<open>a = {1: 0.5}\<close> it is \<open>0.5 * (ln 0.5 - LOG_EPS)\<close>.
\<close>

theorem empty_vector_scores:
  assumes "bow_inv a"
  shows "L1_score a [] = 0 \<and> L1_score [] a = 0
    \<and> L2_score a [] = 0 \<and> L2_score [] a = 0
    \<and> ChiSquare_score a [] = Some 0 \<and> ChiSquare_score [] a = Some 0
    \<and> Bhattacharyya_score a [] = Some 0 \<and> Bhattacharyya_score [] a = Some 0
    \<and> DotProduct_score a [] = Some 0 \<and> DotProduct_score [] a = Some 0
    \<and> KL_score a [] = Some (Finite (sum_list (map (\<lambda>p. snd p * (ln (snd p) - LOG_EPS))
          (filter (\<lambda>p. snd p \<noteq> 0) a))))
    \<and> KL_score [(k, 1/2)] [] = Some (Finite (1/2 * (ln (1/2) - LOG_EPS)))"
proof -
  have "L2_score a [] = 0" "L2_score [] a = 0"
    by (simp_all add: L2_score_via_lookup via_lookup_def)
  moreover have "KL_score a [] = Some (Finite (sum_list (map (\<lambda>p. snd p * (ln (snd p) - LOG_EPS))
          (filter (\<lambda>p. snd p \<noteq> 0) a))))"
    using KL_tail_finite [OF bow_inv_nonneg [OF assms], of 0]
    by (simp add: KL_score_def KL_loop_Nil2)
  moreover have "KL_score [(k, 1/2)] [] = Some (Finite (1/2 * (ln (1/2) - LOG_EPS)))"
    by (simp add: KL_score_def KL_loop_Nil2 dsub_def)
  ultimately show ?thesis
    by (simp add: L1_score_def ChiSquare_score_def Bhattacharyya_score_def DotProduct_score_def
        loop_simps)
qed

theorem empty_vector_scores_witness:
  "bow_inv [(1::nat, 1/2), (2, 0)]
   \<and> L1_score [(1::nat, 1/2), (2, 0)] [] = 0
   \<and> ChiSquare_score [] [(1::nat, 1/2), (2, 0)] = Some 0
   \<and> KL_score [(1::nat, 1/2), (2, 0)] [] = Some (Finite (1/2 * (ln (1/2) - LOG_EPS)))"
proof -
  have a: "bow_inv [(1::nat, 1/2), (2, 0)]"
    by (simp add: bow_inv_def)
  note t = empty_vector_scores [OF a]
  have "L1_score [(1::nat, 1/2), (2, 0)] [] = 0"
    and "ChiSquare_score [] [(1::nat, 1/2), (2, 0)] = Some 0"
    using t by blast+
  moreover have "KL_score [(1::nat, 1/2), (2, 0)] [] =
      Some (Finite (sum_list (map (\<lambda>p. snd p * (ln (snd p) - LOG_EPS))
        (filter (\<lambda>p. snd p \<noteq> 0) [(1::nat, 1/2), (2, 0)]))))"
    using t by blast
  then have "KL_score [(1::nat, 1/2), (2, 0)] [] = Some (Finite (1/2 * (ln (1/2) - LOG_EPS)))"
    by simp
  ultimately show ?thesis
    using a by blast
qed

text \<open>
  C9.  For valid \<open>a\<close> and \<open>b\<close> the four loops that skip with \<open>lower_bound\<close> return: the
  Chi-Square, KL, Bhattacharyya and dot-product scores are values.  A skip moves the
  cursor forward: from a cursor at a key below \<open>k\<close>, \<open>lower_bound\<close> of the whole map at
  \<open>k\<close> is a position after that cursor.  The L1 loop moves a cursor by one entry in each
  branch and the L2 traversal visits each entry of \<open>v1\<close> once; both are defined by
  recursion over the entries, which returns on every input.
\<close>

theorem scores_terminate:
  assumes "bow_inv a" and "bow_inv b"
  shows "(\<exists>s. ChiSquare_score a b = Some s)
    \<and> (\<exists>s. KL_score a b = Some s)
    \<and> (\<exists>s. Bhattacharyya_score a b = Some s)
    \<and> (\<exists>s. DotProduct_score a b = Some s)
    \<and> (\<forall>pre k1 x r k. a = pre @ (k1, x) # r \<and> k1 < k \<longrightarrow> (\<exists>q. r = q @ lower_bound a k))
    \<and> (\<forall>pre k1 x r k. b = pre @ (k1, x) # r \<and> k1 < k \<longrightarrow> (\<exists>q. r = q @ lower_bound b k))"
proof -
  note sa = bow_inv_sorted [OF assms(1)] and sb = bow_inv_sorted [OF assms(2)]
  have skip: "\<exists>q. r = q @ lower_bound v k"
    if "sorted_wrt (<) (map fst v)" and "v = pre @ (k1, x) # r" and "k1 < k"
    for v :: "'a BowVector" and pre k1 x r k
  proof -
    have "r = takeWhile (\<lambda>p. fst p < k) r @ lower_bound v k"
      using lower_bound_cursor [OF that] by simp
    then show ?thesis ..
  qed
  have "\<exists>s. ChiSquare_score a b = Some s"
    using ChiSquare_score_matched [OF sa sb] by simp
  moreover have "\<exists>s. KL_score a b = Some s"
    using KL_score_merge [OF sb, of a] by simp
  moreover have "\<exists>s. Bhattacharyya_score a b = Some s"
    using Bhattacharyya_score_matched [OF sa sb] by simp
  moreover have "\<exists>s. DotProduct_score a b = Some s"
    using DotProduct_score_matched [OF sa sb] by simp
  ultimately show ?thesis
    using skip [OF sa] skip [OF sb] by blast
qed

theorem scores_terminate_witness:
  "bow_inv [(1::nat, 1/2), (2, 1/4), (5, 1/4)] \<and> bow_inv [(4::nat, 1), (5, 1), (7, 0)]
   \<and> (\<exists>s. ChiSquare_score [(1::nat, 1/2), (2, 1/4), (5, 1/4)] [(4, 1), (5, 1), (7, 0)] = Some s)
   \<and> (\<exists>s. KL_score [(1::nat, 1/2), (2, 1/4), (5, 1/4)] [(4, 1), (5, 1), (7, 0)] = Some s)
   \<and> (\<exists>s. Bhattacharyya_score [(1::nat, 1/2), (2, 1/4), (5, 1/4)] [(4, 1), (5, 1), (7, 0)] = Some s)
   \<and> (\<exists>s. DotProduct_score [(1::nat, 1/2), (2, 1/4), (5, 1/4)] [(4, 1), (5, 1), (7, 0)] = Some s)
   \<and> (\<exists>q. [(2::nat, 1/4 :: real), (5, 1/4)]
          = q @ lower_bound [(1::nat, 1/2), (2, 1/4), (5, 1/4)] 4)"
proof -
  have a: "bow_inv [(1::nat, 1/2), (2, 1/4), (5, 1/4)]"
    and b: "bow_inv [(4::nat, 1), (5, 1), (7, 0)]"
    by (simp_all add: bow_inv_def)
  note t = scores_terminate [OF a b]
  have "[(1::nat, 1/2 :: real), (2, 1/4), (5, 1/4)] = [] @ (1, 1/2) # [(2, 1/4), (5, 1/4)]
      \<and> (1::nat) < 4"
    by simp
  then have "\<exists>q. [(2::nat, 1/4 :: real), (5, 1/4)]
      = q @ lower_bound [(1::nat, 1/2), (2, 1/4), (5, 1/4)] 4"
    using t by blast
  then show ?thesis
    using a b t by blast
qed

text \<open>
  C10.  The KL score of a vector with itself is \<open>0\<close>: every key is matched, a matched
  pair of non-zero weights adds \<open>vi * ln (vi / vi) = 0\<close>, a zero weight is skipped, and
  nothing is left for the tail loop.
\<close>

theorem KL_score_self: "KL_score a a = Some (Finite 0)"
  by (simp add: KL_score_def KL_loop_self)

theorem KL_score_self_witness:
  "KL_score [(1::nat, 1/2), (2, 0), (5, 3)] [(1, 1/2), (2, 0), (5, 3)] = Some (Finite 0)"
  using KL_score_self [of "[(1::nat, 1/2), (2, 0), (5, 3)]"] by simp

end
